theory Spec2Isabelle
  imports Main
begin

section \<open>Configuration (client.js, CONFIG)\<close>

definition API_URL :: string where
  "API_URL = ''/device/real/query''"

definition API_TOKEN :: string where
  "API_TOKEN = ''interview_token_123''"

definition BATCH_SIZE :: int where
  "BATCH_SIZE = 10"

definition RATE_LIMIT_MS :: nat where
  "RATE_LIMIT_MS = 1000"

definition MAX_RETRIES :: nat where
  "MAX_RETRIES = 3"

definition RETRY_DELAY_MS :: nat where
  "RETRY_DELAY_MS = 2000"

section \<open>The Batcher: createBatches\<close>

text \<open>
  \<^verbatim>\<open>Array.prototype.slice(start, end)\<close> on integer arguments: a negative index counts
  from the end and is clamped at 0, a non-negative one is clamped at the length, and an
  empty range gives the empty array.
\<close>

definition slice :: "'a list \<Rightarrow> int \<Rightarrow> int \<Rightarrow> 'a list" where
  "slice xs start end =
     (let len = int (length xs);
          k = (if start < 0 then max (len + start) 0 else min start len);
          final = (if end < 0 then max (len + end) 0 else min end len)
      in take (nat (final - k)) (drop (nat k) xs))"

text \<open>
  The loop \<^verbatim>\<open>for (let i = 0; i < array.length; i += batchSize)\<close> of createBatches, with
  the array \<^verbatim>\<open>batches\<close> as accumulator. The source has no check of \<^verbatim>\<open>batchSize\<close>, so
  the loop need not end: not returning is the value \<open>None\<close>.
\<close>

partial_function (option) createBatches_loop ::
  "'a list \<Rightarrow> int \<Rightarrow> int \<Rightarrow> 'a list list \<Rightarrow> 'a list list option" where
  [code]: "createBatches_loop array batchSize i batches =
     (if i < int (length array)
      then createBatches_loop array batchSize (i + batchSize)
             (batches @ [slice array i (i + batchSize)])
      else Some batches)"

definition createBatches :: "'a list \<Rightarrow> int \<Rightarrow> 'a list list option" where
  "createBatches array batchSize = createBatches_loop array batchSize 0 []"

text \<open>
  Specification side of the Batcher: cutting a list into consecutive pieces of \<open>n\<close>
  elements. It is what the loop is compared with; it is not part of the source.
\<close>

function pieces :: "nat \<Rightarrow> 'a list \<Rightarrow> 'a list list" where
  "pieces n xs = (if xs = [] \<or> n = 0 then [] else take n xs # pieces n (drop n xs))"
  by pat_completeness auto
termination
  by (relation "measure (\<lambda>(n, xs). length xs)") auto

section \<open>The population: generateSerialNumbers\<close>

definition digit_char :: "nat \<Rightarrow> char" where
  "digit_char d = ''0123456789'' ! (d mod 10)"

text \<open>\<^verbatim>\<open>String(i)\<close> and \<^verbatim>\<open>Date.now().toString()\<close> for a non-negative integer.\<close>

fun String_of_nat :: "nat \<Rightarrow> string" where
  "String_of_nat n =
     (if n < 10 then [digit_char n] else String_of_nat (n div 10) @ [digit_char (n mod 10)])"

definition padStart :: "nat \<Rightarrow> char \<Rightarrow> string \<Rightarrow> string" where
  "padStart targetLength c s = replicate (targetLength - length s) c @ s"

text \<open>The loop \<^verbatim>\<open>for (let i = 0; i < 500; i++)\<close> that pushes one serial number per
  round.\<close>

function generateSerialNumbers_loop :: "nat \<Rightarrow> string list \<Rightarrow> string list" where
  "generateSerialNumbers_loop i serialNumbers =
     (if i < 500
      then generateSerialNumbers_loop (i + 1)
             (serialNumbers @ [''SN-'' @ padStart 3 (CHR ''0'') (String_of_nat i)])
      else serialNumbers)"
  by pat_completeness auto
termination
  by (relation "measure (\<lambda>(i, serialNumbers). 500 - i)") auto

definition generateSerialNumbers :: "string list" where
  "generateSerialNumbers = generateSerialNumbers_loop 0 []"

section \<open>The Signer: generateSignature\<close>

text \<open>
  \<^verbatim>\<open>crypto.createHash('md5').update(s).digest('hex')\<close> is the runtime's; it is the
  parameter \<open>md5\<close> of everything that signs or verifies.
\<close>

definition generateSignature :: "(string \<Rightarrow> string) \<Rightarrow> string \<Rightarrow> string" where
  "generateSignature md5 timestamp =
     (let signatureString = API_URL @ API_TOKEN @ timestamp in md5 signatureString)"

section \<open>Values of the response payload\<close>

text \<open>
  What \<^verbatim>\<open>JSON.parse\<close> can return. Of a number the code only ever tests whether it is
  zero, so an integer stands for it. A property that may be \<^verbatim>\<open>undefined\<close> is a
  \<open>json option\<close>.
\<close>

datatype json =
    JNull
  | JBool bool
  | JNum int
  | JStr string
  | JArr "json list"
  | JObj "(string \<times> json) list"

datatype exn = TypeError

text \<open>The conversion to a boolean that \<^verbatim>\<open>&&\<close> applies.\<close>

fun truthy :: "json option \<Rightarrow> bool" where
  "truthy None = False"
| "truthy (Some JNull) = False"
| "truthy (Some (JBool b)) = b"
| "truthy (Some (JNum n)) = (n \<noteq> 0)"
| "truthy (Some (JStr s)) = (s \<noteq> [])"
| "truthy (Some (JArr xs)) = True"
| "truthy (Some (JObj kvs)) = True"

text \<open>
  The spread \<^verbatim>\<open>...value\<close> in an argument list: an array gives its elements, a string
  its characters, anything else is not iterable.
\<close>

fun spread :: "json option \<Rightarrow> exn + json list" where
  "spread (Some (JArr xs)) = Inr xs"
| "spread (Some (JStr s)) = Inr (map (\<lambda>c. JStr [c]) s)"
| "spread _ = Inl TypeError"

text \<open>
  The property read \<^verbatim>\<open>parsed.data\<close>: it throws on \<^verbatim>\<open>null\<close>, finds the property of
  an object (whose list holds one entry per key), and is \<^verbatim>\<open>undefined\<close> on every other
  value.
\<close>

fun get_data :: "json \<Rightarrow> exn + json option" where
  "get_data JNull = Inl TypeError"
| "get_data (JObj kvs) = Inr (map_of kvs ''data'')"
| "get_data _ = Inr None"

section \<open>The Transport Client: fetchDeviceData\<close>

text \<open>
  The request as the peer sees it: the request target, the two headers (absent headers
  are \<open>None\<close>) and the \<^verbatim>\<open>sn_list\<close> of the body.
\<close>

record request =
  originalUrl :: string
  signature_header :: "string option"
  timestamp_header :: "string option"
  sn_list :: "string list"

text \<open>What comes back from one network call: a status code with the body text, or a
  connection-level error with its message.\<close>

datatype reply = Response int string | NetworkError string

text \<open>
  The object that fetchDeviceData settles its promise with. A property the source leaves
  out of the object literal is \<open>None\<close>.
\<close>

record result =
  success :: bool
  data :: "json option"
  error :: "string option"
  statusCode :: int

datatype 'a promise = Resolved 'a | Rejected 'a

datatype event = Request request | Sleep nat

text \<open>
  The world a run acts on: how many network calls and clock reads have been made, and
  the requests and sleeps so far, in order.
\<close>

record world =
  calls :: nat
  reads :: nat
  trace :: "event list"

text \<open>
  The surroundings of a run: the peer's reply to the \<open>k\<close>-th network call, the value of
  the \<open>k\<close>-th \<^verbatim>\<open>Date.now()\<close>, and the runtime's \<^verbatim>\<open>JSON.parse\<close> (\<open>None\<close> when it
  throws) and MD5. Host and port only select the peer and are not modelled apart from it.
  Every network call is taken to settle.
\<close>

record env =
  net :: "nat \<Rightarrow> request \<Rightarrow> reply"
  now :: "nat \<Rightarrow> nat"
  JSON_parse :: "string \<Rightarrow> json option"
  md5hex :: "string \<Rightarrow> string"

definition Date_now :: "env \<Rightarrow> world \<Rightarrow> nat \<times> world" where
  "Date_now e w = (now e (reads w), w\<lparr>reads := Suc (reads w)\<rparr>)"

definition sleep :: "nat \<Rightarrow> world \<Rightarrow> world" where
  "sleep ms w = w\<lparr>trace := trace w @ [Sleep ms]\<rparr>"

definition parse_failure :: "int \<Rightarrow> result" where
  "parse_failure code =
     \<lparr>success = False, data = None, error = Some ''Failed to parse response'',
      statusCode = code\<rparr>"

definition fetchDeviceData :: "env \<Rightarrow> string list \<Rightarrow> world \<Rightarrow> result promise \<times> world" where
  "fetchDeviceData e snList w =
     (let (t, w1) = Date_now e w;
          timestamp = String_of_nat t;
          signature = generateSignature (md5hex e) timestamp;
          req = \<lparr>originalUrl = API_URL, signature_header = Some signature,
                 timestamp_header = Some timestamp, sn_list = snList\<rparr>;
          w2 = w1\<lparr>calls := Suc (calls w1), trace := trace w1 @ [Request req]\<rparr>
      in (case net e (calls w1) req of
            Response code body \<Rightarrow>
              if code = 200 then
                (case JSON_parse e body of
                   None \<Rightarrow> Rejected (parse_failure code)
                 | Some parsed \<Rightarrow>
                     (case get_data parsed of
                        Inl x \<Rightarrow> Rejected (parse_failure code)
                      | Inr d \<Rightarrow>
                          Resolved \<lparr>success = True, data = d, error = None,
                                    statusCode = code\<rparr>))
              else Resolved \<lparr>success = False, data = None, error = Some body,
                             statusCode = code\<rparr>
          | NetworkError msg \<Rightarrow>
              Rejected \<lparr>success = False, data = None, error = Some msg, statusCode = 0\<rparr>,
          w2))"

section \<open>The Retry Policy: fetchWithRetry\<close>

function fetchWithRetry :: "env \<Rightarrow> string list \<Rightarrow> nat \<Rightarrow> world \<Rightarrow> result \<times> world" where
  "fetchWithRetry e snList retryCount w =
     (case fetchDeviceData e snList w of
        (Resolved result, w1) \<Rightarrow>
          if \<not> success result \<and> statusCode result = 429 \<and> retryCount < MAX_RETRIES
          then fetchWithRetry e snList (retryCount + 1) (sleep RETRY_DELAY_MS w1)
          else (result, w1)
      | (Rejected err, w1) \<Rightarrow>
          if retryCount < MAX_RETRIES
          then fetchWithRetry e snList (retryCount + 1) (sleep RETRY_DELAY_MS w1)
          else (err, w1))"
  by pat_completeness auto
termination
  by (relation "measure (\<lambda>(e, snList, retryCount, w). MAX_RETRIES - retryCount)") auto

section \<open>The Aggregation Driver: aggregateDeviceData\<close>

text \<open>The object pushed on \<^verbatim>\<open>errors\<close>; \<open>failure_error\<close> and \<open>failure_statusCode\<close> are
  its properties \<^verbatim>\<open>error\<close> and \<^verbatim>\<open>statusCode\<close>.\<close>

record failure =
  batch :: nat
  serialNumbers :: "string list"
  failure_error :: "string option"
  failure_statusCode :: int

text \<open>
  The loop \<^verbatim>\<open>for (let i = 0; i < batches.length; i++)\<close>, with the two accumulators. The
  spread in \<^verbatim>\<open>aggregatedData.push(...result.data)\<close> can throw, which ends the run.
\<close>

function processBatches ::
  "env \<Rightarrow> string list list \<Rightarrow> nat \<Rightarrow> json list \<Rightarrow> failure list \<Rightarrow> world
     \<Rightarrow> (exn + json list \<times> failure list) \<times> world" where
  "processBatches e batches i aggregatedData errors w =
     (if i < length batches then
        (case fetchWithRetry e (batches ! i) 0 w of
           (result, w1) \<Rightarrow>
             if success result \<and> truthy (data result) then
               (case spread (data result) of
                  Inl x \<Rightarrow> (Inl x, w1)
                | Inr rows \<Rightarrow>
                    processBatches e batches (i + 1) (aggregatedData @ rows) errors
                      (if int i < int (length batches) - 1 then sleep RATE_LIMIT_MS w1 else w1))
             else
               processBatches e batches (i + 1) aggregatedData
                 (errors @ [\<lparr>batch = i + 1, serialNumbers = batches ! i,
                             failure_error = error result,
                             failure_statusCode = statusCode result\<rparr>])
                 (if int i < int (length batches) - 1 then sleep RATE_LIMIT_MS w1 else w1))
      else (Inr (aggregatedData, errors), w))"
  by pat_completeness auto
termination
  by (relation "measure (\<lambda>(e, batches, i, aggregatedData, errors, w). length batches - i)") auto

text \<open>
  The report. \<open>report_success\<close>, \<open>report_data\<close> and \<open>report_errors\<close> are its properties
  \<^verbatim>\<open>success\<close>, \<^verbatim>\<open>data\<close> and \<^verbatim>\<open>errors\<close>. \<open>executionTimeMs\<close> is the difference of
  the two clock reads; the source stores it in seconds, rounded by \<^verbatim>\<open>toFixed(2)\<close> on a
  floating-point quotient, which is not modelled.
\<close>

record report =
  report_success :: bool
  totalDevices :: nat
  fetchedDevices :: nat
  failedBatches :: nat
  executionTimeMs :: int
  report_data :: "json list"
  report_errors :: "failure list"

definition aggregateDeviceData :: "env \<Rightarrow> world \<Rightarrow> ((exn + report) \<times> world) option" where
  "aggregateDeviceData e w =
     (let (startTime, w1) = Date_now e w;
          serialNumbers = generateSerialNumbers
      in case createBatches serialNumbers BATCH_SIZE of
           None \<Rightarrow> None
         | Some batches \<Rightarrow>
             (case processBatches e batches 0 [] [] w1 of
                (Inl x, w2) \<Rightarrow> Some (Inl x, w2)
              | (Inr (aggregatedData, errors), w2) \<Rightarrow>
                  (let (endTime, w3) = Date_now e w2
                   in Some (Inr \<lparr>report_success = True,
                                  totalDevices = 500,
                                  fetchedDevices = length aggregatedData,
                                  failedBatches = length errors,
                                  executionTimeMs = int endTime - int startTime,
                                  report_data = aggregatedData,
                                  report_errors = errors\<rparr>, w3))))"

section \<open>The receiving side: securityCheck (server.js)\<close>

definition SECRET_TOKEN :: string where
  "SECRET_TOKEN = ''interview_token_123''"

datatype verdict = Next | Rejected_with int string

text \<open>
  \<^verbatim>\<open>!timestamp || !signature\<close> holds when a header is absent or the empty string; past
  that check both are non-empty strings.
\<close>

definition securityCheck :: "(string \<Rightarrow> string) \<Rightarrow> request \<Rightarrow> verdict" where
  "securityCheck md5 req =
     (let signature = signature_header req;
          timestamp = timestamp_header req;
          url = originalUrl req
      in case (timestamp, signature) of
           (Some ts, Some sg) \<Rightarrow>
             if ts = [] \<or> sg = []
             then Rejected_with 401 ''Missing headers: signature or timestamp''
             else
               (let expectedSig = md5 (url @ SECRET_TOKEN @ ts)
                in if sg \<noteq> expectedSig
                   then Rejected_with 401 ''Invalid Signature''
                   else Next)
         | _ \<Rightarrow> Rejected_with 401 ''Missing headers: signature or timestamp'')"

section \<open>Specification side of the run\<close>

text \<open>
  What the theorems about the run are stated with; none of it is part of the source.
  \<open>delivered\<close> is the driver's own test \<^verbatim>\<open>result.success && result.data\<close>, and
  \<open>records_of\<close> is what a delivered result contributes to the data list.
\<close>

definition delivered :: "result \<Rightarrow> bool" where
  "delivered r = (success r \<and> truthy (data r))"

definition records_of :: "result \<Rightarrow> json list" where
  "records_of r = (case spread (data r) of Inl x \<Rightarrow> [] | Inr rows \<Rightarrow> rows)"

definition malformed :: "result \<Rightarrow> bool" where
  "malformed r = (delivered r \<and> isl (spread (data r)))"

definition pause_after :: "string list list \<Rightarrow> nat \<Rightarrow> world \<Rightarrow> world" where
  "pause_after batches i w =
     (if int i < int (length batches) - 1 then sleep RATE_LIMIT_MS w else w)"

text \<open>
  The final results of the Retry Policy for the batches \<open>i\<close>, \<open>i + 1\<close>, ... when they
  are run one after the other from the world \<open>w\<close>, with the driver's pause in between.
\<close>

function batch_results :: "env \<Rightarrow> string list list \<Rightarrow> nat \<Rightarrow> world \<Rightarrow> result list" where
  "batch_results e batches i w =
     (if i < length batches then
        (case fetchWithRetry e (batches ! i) 0 w of
           (r, w1) \<Rightarrow> r # batch_results e batches (i + 1) (pause_after batches i w1))
      else [])"
  by pat_completeness auto
termination
  by (relation "measure (\<lambda>(e, batches, i, w). length batches - i)") auto

text \<open>One failure descriptor for every result that is not delivered, numbered from
  \<open>i + 1\<close> on, in order.\<close>

fun expected_errors :: "nat \<Rightarrow> string list list \<Rightarrow> result list \<Rightarrow> failure list" where
  "expected_errors i (b # bs) (r # rs) =
     (if delivered r then []
      else [\<lparr>batch = i + 1, serialNumbers = b, failure_error = error r,
              failure_statusCode = statusCode r\<rparr>])
     @ expected_errors (i + 1) bs rs"
| "expected_errors i bs rs = []"

definition expected_data :: "result list \<Rightarrow> json list" where
  "expected_data rs = concat (map records_of (filter delivered rs))"

text \<open>
  The events of one pass through the Retry Policy for the batch \<open>b\<close>: a request for
  \<open>b\<close>, then any number of times the retry delay followed by another request for \<open>b\<close>.
\<close>

fun retry_segment :: "string list \<Rightarrow> event list \<Rightarrow> bool" where
  "retry_segment b [Request rq] = (sn_list rq = b)"
| "retry_segment b (Request rq # Sleep ms # evs) =
     (sn_list rq = b \<and> ms = RETRY_DELAY_MS \<and> retry_segment b evs)"
| "retry_segment b evs = False"

fun attempts :: "event list \<Rightarrow> nat" where
  "attempts [] = 0"
| "attempts (Request rq # evs) = Suc (attempts evs)"
| "attempts (Sleep ms # evs) = attempts evs"

fun join :: "'a list \<Rightarrow> 'a list list \<Rightarrow> 'a list" where
  "join sep [] = []"
| "join sep [s] = s"
| "join sep (s # t # ss) = s @ sep @ join sep (t # ss)"

text \<open>
  Whether the Retry Policy goes round again after an attempt settled with \<open>p\<close>, and what
  it returns when it does not: the two branches of fetchWithRetry, named.
\<close>

definition retried :: "result promise \<Rightarrow> nat \<Rightarrow> bool" where
  "retried p retryCount =
     (case p of
        Resolved r \<Rightarrow> \<not> success r \<and> statusCode r = 429 \<and> retryCount < MAX_RETRIES
      | Rejected r \<Rightarrow> retryCount < MAX_RETRIES)"

fun settled_value :: "'a promise \<Rightarrow> 'a" where
  "settled_value (Resolved r) = r"
| "settled_value (Rejected r) = r"

text \<open>The request that fetchDeviceData sends from the world \<open>w\<close>.\<close>

definition request_of :: "env \<Rightarrow> string list \<Rightarrow> world \<Rightarrow> request" where
  "request_of e s w =
     \<lparr>originalUrl = API_URL,
      signature_header = Some (generateSignature (md5hex e) (String_of_nat (now e (reads w)))),
      timestamp_header = Some (String_of_nat (now e (reads w))), sn_list = s\<rparr>"

section \<open>Sample surroundings\<close>

text \<open>
  Concrete surroundings on which the theorems are tried out: a world in which nothing has
  happened yet, a stand-in for \<^verbatim>\<open>JSON.parse\<close> that knows three texts, a clock that
  advances by a second with every read, and the identity as digest.
\<close>

definition fresh_world :: world where
  "fresh_world = \<lparr>calls = 0, reads = 0, trace = []\<rparr>"

definition sample_parse :: "string \<Rightarrow> json option" where
  "sample_parse s =
     (if s = ''rows'' then Some (JObj [(''data'', JArr [JStr ''r1'', JStr ''r2''])])
      else if s = ''empty'' then Some (JObj [])
      else if s = ''number'' then Some (JObj [(''data'', JNum 7)])
      else None)"

definition sample_env :: "(nat \<Rightarrow> request \<Rightarrow> reply) \<Rightarrow> env" where
  "sample_env peer =
     \<lparr>net = peer, now = (\<lambda>k. 1770000000000 + 1000 * k), JSON_parse = sample_parse,
      md5hex = (\<lambda>s. s)\<rparr>"

section \<open>Running the model on the sample surroundings\<close>

declare pieces.simps [simp del]
declare String_of_nat.simps [simp del]
declare generateSerialNumbers_loop.simps [simp del]
declare fetchWithRetry.simps [simp del]
declare processBatches.simps [simp del]
declare batch_results.simps [simp del]

text \<open>
  The recursive equations in a form the simplifier can run: each is guarded by a test
  that a concrete input decides.
\<close>

lemma fetchWithRetry_eval:
  "fetchWithRetry e s rc w =
     (let out = fetchDeviceData e s w
      in if retried (fst out) rc
         then fetchWithRetry e s (Suc rc) (sleep RETRY_DELAY_MS (snd out))
         else (settled_value (fst out), snd out))"
  by (subst fetchWithRetry.simps)
    (auto simp: Let_def retried_def split: prod.splits promise.splits)

lemma processBatches_eval:
  "processBatches e batches i d errs w =
     (if i < length batches then
        (let out = fetchWithRetry e (batches ! i) 0 w
         in if delivered (fst out) then
              (case spread (data (fst out)) of
                 Inl x \<Rightarrow> (Inl x, snd out)
               | Inr rows \<Rightarrow>
                   processBatches e batches (Suc i) (d @ rows) errs
                     (pause_after batches i (snd out)))
            else
              processBatches e batches (Suc i) d
                (errs @ [\<lparr>batch = Suc i, serialNumbers = batches ! i,
                           failure_error = error (fst out),
                           failure_statusCode = statusCode (fst out)\<rparr>])
                (pause_after batches i (snd out)))
      else (Inr (d, errs), w))"
  by (subst processBatches.simps)
    (auto simp: Let_def delivered_def pause_after_def split: prod.splits sum.splits)

lemma batch_results_eval:
  "batch_results e batches i w =
     (if i < length batches then
        (let out = fetchWithRetry e (batches ! i) 0 w
         in fst out # batch_results e batches (Suc i) (pause_after batches i (snd out)))
      else [])"
  by (subst batch_results.simps) (auto simp: Let_def split: prod.splits)

lemmas eval_simps = fetchWithRetry_eval fetchDeviceData_def Date_now_def sleep_def
  retried_def parse_failure_def generateSignature_def sample_env_def sample_parse_def
  fresh_world_def API_URL_def API_TOKEN_def MAX_RETRIES_def RETRY_DELAY_MS_def
  RATE_LIMIT_MS_def String_of_nat.simps digit_char_def Let_def

section \<open>Properties of the Batcher\<close>

lemma pieces_Nil: "pieces n [] = []"
  by (simp add: pieces.simps)

lemma pieces_step: "0 < n \<Longrightarrow> xs \<noteq> [] \<Longrightarrow> pieces n xs = take n xs # pieces n (drop n xs)"
  by (subst pieces.simps) simp

lemma pieces_eq_Nil: "0 < n \<Longrightarrow> pieces n xs = [] \<longleftrightarrow> xs = []"
  by (subst pieces.simps) simp

lemma slice_in_range:
  assumes "0 \<le> i" "i < int (length xs)" "0 < s"
  shows "slice xs i (i + s) = take (nat s) (drop (nat i) xs)"
proof -
  have "nat (min (i + s) (int (length xs)) - i) = min (nat s) (length xs - nat i)"
    using assms by (auto simp: min_def)
  then show ?thesis
    using assms by (simp add: slice_def Let_def min_def)
qed

text \<open>For a positive size the loop returns, and what it returns is the list cut into pieces.\<close>

lemma createBatches_loop_pos:
  assumes "0 < s" "0 \<le> i"
  shows "createBatches_loop xs s i acc = Some (acc @ pieces (nat s) (drop (nat i) xs))"
  using assms(2)
proof (induction "length xs - nat i" arbitrary: i acc rule: less_induct)
  case less
  show ?case
  proof (cases "i < int (length xs)")
    case True
    have lt: "length xs - nat (i + s) < length xs - nat i"
      using True less.prems assms(1) by linarith
    have ne: "drop (nat i) xs \<noteq> []"
      using True less.prems by simp
    have dd: "drop (nat s) (drop (nat i) xs) = drop (nat (i + s)) xs"
      using less.prems assms(1) by (simp add: nat_add_distrib add.commute)
    have "createBatches_loop xs s i acc =
          createBatches_loop xs s (i + s) (acc @ [slice xs i (i + s)])"
      using True by (subst createBatches_loop.simps) simp
    also have "\<dots> = Some ((acc @ [slice xs i (i + s)]) @ pieces (nat s) (drop (nat (i + s)) xs))"
      using less.hyps [OF lt] less.prems assms(1) by simp
    also have "\<dots> = Some (acc @ pieces (nat s) (drop (nat i) xs))"
      using pieces_step [of "nat s" "drop (nat i) xs"] ne assms(1) dd
        slice_in_range [OF less.prems True assms(1)]
      by simp
    finally show ?thesis .
  next
    case False
    then have "drop (nat i) xs = []"
      using less.prems by simp
    then show ?thesis
      using False by (subst createBatches_loop.simps) (simp add: pieces_Nil)
  qed
qed

lemma createBatches_pos: "0 < s \<Longrightarrow> createBatches xs s = Some (pieces (nat s) xs)"
  using createBatches_loop_pos [of s 0 xs "[]"] by (simp add: createBatches_def)

lemma concat_pieces: "0 < n \<Longrightarrow> concat (pieces n xs) = xs"
proof (induction n xs rule: pieces.induct)
  case (1 n xs)
  then show ?case
    by (cases "xs = []") (simp_all add: pieces_Nil pieces_step)
qed

lemma pieces_no_empty: "[] \<notin> set (pieces n xs)"
proof (induction n xs rule: pieces.induct)
  case (1 n xs)
  show ?case
  proof (cases "xs = [] \<or> n = 0")
    case True
    then show ?thesis by (subst pieces.simps) simp
  next
    case False
    then show ?thesis using 1 by (subst pieces.simps) auto
  qed
qed

lemma pieces_full_batches:
  "0 < n \<Longrightarrow> Suc k < length (pieces n xs) \<Longrightarrow> length (pieces n xs ! k) = n"
proof (induction n xs arbitrary: k rule: pieces.induct)
  case (1 n xs)
  from "1.prems" have ne: "xs \<noteq> []"
    by (auto simp: pieces_Nil)
  have st: "pieces n xs = take n xs # pieces n (drop n xs)"
    using pieces_step [OF "1.prems"(1) ne] .
  show ?case
  proof (cases k)
    case 0
    with "1.prems" st have "pieces n (drop n xs) \<noteq> []" by auto
    then have "drop n xs \<noteq> []" by (auto simp: pieces_Nil)
    then show ?thesis using 0 st by simp
  next
    case (Suc j)
    with "1.prems" st have "Suc j < length (pieces n (drop n xs))" by simp
    then have "length (pieces n (drop n xs) ! j) = n"
      using "1.IH" "1.prems"(1) ne by simp
    then show ?thesis using Suc st by simp
  qed
qed

lemma pieces_last_batch:
  "0 < n \<Longrightarrow> xs \<noteq> [] \<Longrightarrow>
   length (last (pieces n xs)) = (if length xs mod n = 0 then n else length xs mod n)"
proof (induction n xs rule: pieces.induct)
  case (1 n xs)
  have st: "pieces n xs = take n xs # pieces n (drop n xs)"
    using pieces_step [OF "1.prems"] .
  show ?case
  proof (cases "drop n xs = []")
    case True
    then have le: "length xs \<le> n" by simp
    have pos: "0 < length xs" using "1.prems" by simp
    have "length (last (pieces n xs)) = length xs"
      using st True le by (simp add: pieces_Nil)
    moreover have "(if length xs mod n = 0 then n else length xs mod n) = length xs"
      using le pos by (cases "length xs = n") auto
    ultimately show ?thesis by simp
  next
    case False
    then have gt: "n < length xs" by simp
    have "pieces n (drop n xs) \<noteq> []"
      using False "1.prems"(1) by (simp add: pieces_eq_Nil)
    then have "last (pieces n xs) = last (pieces n (drop n xs))"
      using st by simp
    moreover have "length (last (pieces n (drop n xs))) =
        (if length (drop n xs) mod n = 0 then n else length (drop n xs) mod n)"
      using "1.IH" "1.prems" False by simp
    moreover have "length (drop n xs) mod n = length xs mod n"
      using gt by (simp add: le_mod_geq)
    ultimately show ?thesis by simp
  qed
qed

text \<open>With a non-positive size the loop variable never reaches the length again.\<close>

lemma createBatches_loop_stuck:
  assumes ret: "createBatches_loop xs s i acc = Some y"
  shows "\<not> (s \<le> 0 \<and> i < int (length xs))"
proof (rule createBatches_loop.raw_induct
    [where P = "\<lambda>xs s i acc y. \<not> (s \<le> 0 \<and> i < int (length xs))", OF _ ret])
  fix f :: "'a list \<Rightarrow> int \<Rightarrow> int \<Rightarrow> 'a list list \<Rightarrow> 'a list list option"
  fix a b c d r
  assume IH: "\<And>a b c d r. f a b c d = Some r \<Longrightarrow> \<not> (b \<le> 0 \<and> c < int (length a))"
    and step: "(if c < int (length a) then f a b (c + b) (d @ [slice a c (c + b)])
                else Some d) = Some r"
  show "\<not> (b \<le> 0 \<and> c < int (length a))"
  proof
    assume neg: "b \<le> 0 \<and> c < int (length a)"
    then have "f a b (c + b) (d @ [slice a c (c + b)]) = Some r"
      using step by simp
    then have "\<not> (b \<le> 0 \<and> c + b < int (length a))"
      by (rule IH)
    with neg show False by simp
  qed
qed

lemma createBatches_nonpos:
  assumes "s \<le> 0" "xs \<noteq> []"
  shows "createBatches xs s = None"
proof -
  have "createBatches_loop xs s 0 [] \<noteq> Some y" for y
    using createBatches_loop_stuck [of xs s 0 "[]" y] assms by auto
  then show ?thesis
    by (cases "createBatches_loop xs s 0 []") (auto simp: createBatches_def)
qed

lemma createBatches_empty: "createBatches [] s = Some []"
  by (simp add: createBatches_def createBatches_loop.simps)

text \<open>
  C1. For every population and every positive batch size, createBatches returns; the
  batches it returns, concatenated in order, are the population; every batch but the last
  has exactly \<open>s\<close> elements; the last batch has \<open>length xs mod s\<close> elements, or \<open>s\<close>
  when \<open>s\<close> divides the length; no batch is empty, and an empty population gives no
  batch at all.
\<close>

theorem createBatches_partition:
  assumes "0 < s"
  shows "\<exists>bs. createBatches xs s = Some bs \<and> concat bs = xs \<and>
           (\<forall>k. Suc k < length bs \<longrightarrow> length (bs ! k) = nat s) \<and>
           (xs \<noteq> [] \<longrightarrow> bs \<noteq> [] \<and>
              length (last bs) =
                (if length xs mod nat s = 0 then nat s else length xs mod nat s)) \<and>
           [] \<notin> set bs \<and> (xs = [] \<longrightarrow> bs = [])"
proof -
  have n: "0 < nat s" using assms by simp
  have "createBatches xs s = Some (pieces (nat s) xs)"
    using assms by (rule createBatches_pos)
  moreover have "concat (pieces (nat s) xs) = xs"
    using n by (rule concat_pieces)
  moreover have "\<forall>k. Suc k < length (pieces (nat s) xs) \<longrightarrow> length (pieces (nat s) xs ! k) = nat s"
    using pieces_full_batches [OF n] by blast
  moreover have "xs \<noteq> [] \<longrightarrow> pieces (nat s) xs \<noteq> [] \<and>
      length (last (pieces (nat s) xs)) =
        (if length xs mod nat s = 0 then nat s else length xs mod nat s)"
    using pieces_last_batch [OF n] pieces_eq_Nil [OF n] by blast
  moreover have "[] \<notin> set (pieces (nat s) xs)"
    by (rule pieces_no_empty)
  moreover have "xs = [] \<longrightarrow> pieces (nat s) xs = []"
    by (simp add: pieces_Nil)
  ultimately show ?thesis by blast
qed

theorem createBatches_partition_witness:
  "(0::int) < 3 \<and>
   createBatches [1, 2, 3, 4, 5, 6, 7 :: nat] 3 = Some [[1, 2, 3], [4, 5, 6], [7]] \<and>
   (\<exists>bs. createBatches [1, 2, 3, 4, 5, 6, 7 :: nat] 3 = Some bs \<and>
         concat bs = [1, 2, 3, 4, 5, 6, 7] \<and> length (bs ! 0) = 3 \<and> length (bs ! 1) = 3 \<and>
         length (last bs) = 1 \<and> [] \<notin> set bs)"
proof -
  have run: "createBatches [1, 2, 3, 4, 5, 6, 7 :: nat] 3 = Some [[1, 2, 3], [4, 5, 6], [7]]"
    by code_simp
  have pos: "(0::int) < 3" by simp
  show ?thesis
    using createBatches_partition [OF pos, of "[1, 2, 3, 4, 5, 6, 7 :: nat]"] run by simp
qed

text \<open>
  C6, as the code has it. createBatches raises no error of its own. For every positive
  size it returns. For a size that is zero or negative it returns the empty list of
  batches when the population is empty, and does not return at all when the population
  is not empty: the loop never ends.
\<close>

theorem createBatches_total_iff:
  "(0 < s \<longrightarrow> (\<exists>bs. createBatches xs s = Some bs)) \<and>
   (s \<le> 0 \<and> xs = [] \<longrightarrow> createBatches xs s = Some []) \<and>
   (s \<le> 0 \<and> xs \<noteq> [] \<longrightarrow> createBatches xs s = None)"
  using createBatches_pos [of s xs] createBatches_nonpos [of s xs] createBatches_empty [of s]
  by auto

theorem createBatches_total_iff_witness:
  "(0::int) < 2 \<and> createBatches [5, 6, 7 :: nat] 2 = Some [[5, 6], [7]] \<and>
   (0::int) \<le> 0 \<and> createBatches ([] :: nat list) 0 = Some [] \<and>
   (-1::int) \<le> 0 \<and> [5, 6, 7 :: nat] \<noteq> [] \<and> createBatches [5, 6, 7 :: nat] (-1) = None"
proof -
  have run: "createBatches [5, 6, 7 :: nat] 2 = Some [[5, 6], [7]]"
    by code_simp
  show ?thesis
    using createBatches_total_iff [of 2 "[5, 6, 7 :: nat]"]
      createBatches_total_iff [of 0 "[] :: nat list"]
      createBatches_total_iff [of "-1" "[5, 6, 7 :: nat]"] run
    by simp
qed

text \<open>
  The claim that a non-positive size makes createBatches fail does not hold of the code:
  on the empty population sizes 0 and -3 give the normal result, the empty list.
\<close>

theorem createBatches_nonpositive_returns:
  "createBatches ([] :: nat list) 0 = Some [] \<and> createBatches ([] :: nat list) (-3) = Some []"
  by (simp add: createBatches_def createBatches_loop.simps)

section \<open>Properties of the Signer\<close>

text \<open>
  What the Signer computes: the digest of the path, the secret and the timestamp, written
  one after the other. Two different timestamps always give two different digest inputs.
  Whether they give two different tokens is then a question about the digest alone,
  which is the runtime's and a parameter here. Over timestamps of unbounded length no
  digest of fixed length keeps all tokens apart; that says nothing of the 13-digit
  timestamps that fetchDeviceData signs.
\<close>

lemma generateSignature_unfold:
  "generateSignature md5 ts = md5 (''/device/real/queryinterview_token_123'' @ ts)"
  by (simp add: generateSignature_def Let_def API_URL_def API_TOKEN_def)

lemma signature_inputs_differ:
  "(API_URL @ API_TOKEN @ t1 = API_URL @ API_TOKEN @ t2) = (t1 = t2)"
  by simp

lemma fixed_length_digest_collides:
  "\<not> (\<exists>md5. (\<forall>s. length (md5 s) = 32) \<and>
         (\<forall>t1 t2. t1 \<noteq> t2 \<longrightarrow> generateSignature md5 t1 \<noteq> generateSignature md5 t2))"
proof
  assume "\<exists>md5. (\<forall>s. length (md5 s) = 32) \<and>
         (\<forall>t1 t2. t1 \<noteq> t2 \<longrightarrow> generateSignature md5 t1 \<noteq> generateSignature md5 t2)"
  then obtain md5 :: "string \<Rightarrow> string" where len: "\<And>s. length (md5 s) = 32"
    and sep: "\<And>t1 t2. t1 \<noteq> t2 \<Longrightarrow> generateSignature md5 t1 \<noteq> generateSignature md5 t2"
    by blast
  have inj: "inj (generateSignature md5)"
    using sep by (auto simp: inj_def)
  have "range (generateSignature md5) \<subseteq> {s. set s \<subseteq> UNIV \<and> length s = 32}"
    using len by (auto simp: generateSignature_def Let_def)
  moreover have "finite {s :: string. set s \<subseteq> UNIV \<and> length s = 32}"
    by (rule finite_lists_length_eq) simp
  ultimately have "finite (range (generateSignature md5))"
    by (rule finite_subset)
  then have "finite (UNIV :: string set)"
    using inj by (rule finite_imageD)
  then show False
    using infinite_UNIV_listI by blast
qed

text \<open>
  C8. For every timestamp the token of generateSignature is the signature that
  securityCheck computes for the path \<^verbatim>\<open>/device/real/query\<close> and that timestamp; a
  request carrying both is passed on (or, with an empty timestamp or token, refused for
  missing headers), and the request that fetchDeviceData sends is never refused with
  401 Invalid Signature.
\<close>

theorem client_signature_accepted:
  "generateSignature md5 ts = md5 (API_URL @ SECRET_TOKEN @ ts) \<and>
   securityCheck md5
     \<lparr>originalUrl = API_URL, signature_header = Some (generateSignature md5 ts),
      timestamp_header = Some ts, sn_list = snList\<rparr> =
     (if ts = [] \<or> generateSignature md5 ts = []
      then Rejected_with 401 ''Missing headers: signature or timestamp'' else Next) \<and>
   (\<exists>rq. trace (snd (fetchDeviceData e snList w)) = trace w @ [Request rq] \<and>
         sn_list rq = snList \<and>
         securityCheck (md5hex e) rq \<noteq> Rejected_with 401 ''Invalid Signature'')"
  by (simp add: generateSignature_def securityCheck_def fetchDeviceData_def Date_now_def
      Let_def API_TOKEN_def SECRET_TOKEN_def split_def)


section \<open>Properties of the Retry Policy\<close>

lemma fetchDeviceData_snd:
  "snd (fetchDeviceData e s w) =
     w\<lparr>reads := Suc (reads w), calls := Suc (calls w),
       trace := trace w @ [Request (request_of e s w)]\<rparr>"
  by (simp add: fetchDeviceData_def Date_now_def Let_def split_def request_of_def)

lemma fetchDeviceData_world:
  "\<exists>rq. snd (fetchDeviceData e s w) =
          w\<lparr>reads := Suc (reads w), calls := Suc (calls w), trace := trace w @ [Request rq]\<rparr> \<and>
        sn_list rq = s"
  using fetchDeviceData_snd [of e s w] by (auto simp: request_of_def)

lemma fetchWithRetry_again:
  assumes "fetchDeviceData e s w = (p, w1)" "retried p rc"
  shows "fetchWithRetry e s rc w = fetchWithRetry e s (Suc rc) (sleep RETRY_DELAY_MS w1)"
  using assms by (subst fetchWithRetry.simps) (auto simp: retried_def split: promise.splits)

lemma fetchWithRetry_final:
  assumes "fetchDeviceData e s w = (p, w1)" "\<not> retried p rc"
  shows "fetchWithRetry e s rc w = (settled_value p, w1)"
  using assms by (subst fetchWithRetry.simps) (auto simp: retried_def split: promise.splits)

lemma retried_bound: "retried p rc \<Longrightarrow> rc < MAX_RETRIES"
  by (auto simp: retried_def split: promise.splits)

lemma fetchWithRetry_segment:
  "\<exists>seg. trace (snd (fetchWithRetry e s rc w)) = trace w @ seg \<and> retry_segment s seg \<and>
         calls (snd (fetchWithRetry e s rc w)) = calls w + attempts seg \<and>
         reads (snd (fetchWithRetry e s rc w)) = reads w + attempts seg \<and>
         1 \<le> attempts seg \<and> attempts seg \<le> Suc (MAX_RETRIES - rc)"
proof (induction "MAX_RETRIES - rc" arbitrary: rc w rule: less_induct)
  case less
  obtain p w1 where fd: "fetchDeviceData e s w = (p, w1)"
    by (cases "fetchDeviceData e s w")
  obtain rq where w1: "w1 = w\<lparr>reads := Suc (reads w), calls := Suc (calls w),
      trace := trace w @ [Request rq]\<rparr>" and rq: "sn_list rq = s"
    using fetchDeviceData_world [of e s w] fd by auto
  show ?case
  proof (cases "retried p rc")
    case True
    let ?w2 = "sleep RETRY_DELAY_MS w1"
    have lt: "MAX_RETRIES - Suc rc < MAX_RETRIES - rc"
      using retried_bound [OF True] by simp
    obtain seg where seg: "trace (snd (fetchWithRetry e s (Suc rc) ?w2)) = trace ?w2 @ seg"
      "retry_segment s seg"
      "calls (snd (fetchWithRetry e s (Suc rc) ?w2)) = calls ?w2 + attempts seg"
      "reads (snd (fetchWithRetry e s (Suc rc) ?w2)) = reads ?w2 + attempts seg"
      "1 \<le> attempts seg" "attempts seg \<le> Suc (MAX_RETRIES - Suc rc)"
      using less.hyps [OF lt, of ?w2] by blast
    let ?seg = "Request rq # Sleep RETRY_DELAY_MS # seg"
    have eq: "fetchWithRetry e s rc w = fetchWithRetry e s (Suc rc) ?w2"
      using fd True by (rule fetchWithRetry_again)
    have "trace (snd (fetchWithRetry e s rc w)) = trace w @ ?seg"
      using seg(1) w1 by (simp add: eq sleep_def)
    moreover have "retry_segment s ?seg"
      using seg(2) rq by simp
    moreover have "calls (snd (fetchWithRetry e s rc w)) = calls w + attempts ?seg"
      using seg(3) w1 by (simp add: eq sleep_def)
    moreover have "reads (snd (fetchWithRetry e s rc w)) = reads w + attempts ?seg"
      using seg(4) w1 by (simp add: eq sleep_def)
    moreover have "1 \<le> attempts ?seg" by simp
    moreover have "attempts ?seg \<le> Suc (MAX_RETRIES - rc)"
      using seg(6) lt by simp
    ultimately show ?thesis by blast
  next
    case False
    have eq: "fetchWithRetry e s rc w = (settled_value p, w1)"
      using fd False by (rule fetchWithRetry_final)
    let ?seg = "[Request rq]"
    have "trace (snd (fetchWithRetry e s rc w)) = trace w @ ?seg"
      using w1 by (simp add: eq)
    moreover have "retry_segment s ?seg" using rq by simp
    moreover have "calls (snd (fetchWithRetry e s rc w)) = calls w + attempts ?seg"
      using w1 by (simp add: eq)
    moreover have "reads (snd (fetchWithRetry e s rc w)) = reads w + attempts ?seg"
      using w1 by (simp add: eq)
    moreover have "1 \<le> attempts ?seg" by simp
    moreover have "attempts ?seg \<le> Suc (MAX_RETRIES - rc)" by simp
    ultimately show ?thesis by blast
  qed
qed

text \<open>A peer that answers every call with the same kind of retried outcome.\<close>

lemma fetchWithRetry_exhausted:
  assumes every: "\<And>w'. \<exists>w1. fetchDeviceData e s w' = (p (calls w'), w1)"
    and again: "\<And>k rc. rc < MAX_RETRIES \<Longrightarrow> retried (p k) rc"
    and "rc \<le> MAX_RETRIES"
  shows "fst (fetchWithRetry e s rc w) = settled_value (p (calls w + (MAX_RETRIES - rc))) \<and>
         calls (snd (fetchWithRetry e s rc w)) = calls w + (MAX_RETRIES - rc) + 1"
  using assms(3)
proof (induction "MAX_RETRIES - rc" arbitrary: rc w rule: less_induct)
  case less
  obtain w1 where fd: "fetchDeviceData e s w = (p (calls w), w1)"
    using every [of w] by blast
  have c1: "calls w1 = Suc (calls w)"
    using fetchDeviceData_world [of e s w] fd by auto
  show ?case
  proof (cases "rc < MAX_RETRIES")
    case True
    let ?w2 = "sleep RETRY_DELAY_MS w1"
    have eq: "fetchWithRetry e s rc w = fetchWithRetry e s (Suc rc) ?w2"
      using fd again [OF True] by (rule fetchWithRetry_again)
    have lt: "MAX_RETRIES - Suc rc < MAX_RETRIES - rc" using True by simp
    have c2: "calls ?w2 = Suc (calls w)" using c1 by (simp add: sleep_def)
    have "calls w + (MAX_RETRIES - rc) = calls ?w2 + (MAX_RETRIES - Suc rc)"
      using True c2 by simp
    then show ?thesis
      using less.hyps [OF lt, of ?w2] True c2 by (simp add: eq)
  next
    case False
    then have "\<not> retried (p (calls w)) rc"
      using retried_bound by blast
    then have "fetchWithRetry e s rc w = (settled_value (p (calls w)), w1)"
      using fd fetchWithRetry_final by blast
    then show ?thesis using False less.prems c1 by simp
  qed
qed

lemma fetchDeviceData_429:
  assumes "\<And>k rq. net e k rq = Response 429 (body k)"
  shows "\<exists>w1. fetchDeviceData e s w =
     (Resolved \<lparr>success = False, data = None, error = Some (body (calls w)), statusCode = 429\<rparr>, w1)"
  using assms by (simp add: fetchDeviceData_def Date_now_def Let_def split_def)

lemma fetchDeviceData_unparseable:
  assumes "\<And>k rq. \<exists>body. net e k rq = Response 200 body \<and> JSON_parse e body = None"
  shows "\<exists>w1. fetchDeviceData e s w = (Rejected (parse_failure 200), w1)"
proof -
  let ?rq = "\<lparr>originalUrl = API_URL,
      signature_header = Some (generateSignature (md5hex e) (String_of_nat (now e (reads w)))),
      timestamp_header = Some (String_of_nat (now e (reads w))), sn_list = s\<rparr>"
  obtain body where "net e (calls w) ?rq = Response 200 body" "JSON_parse e body = None"
    using assms by blast
  then show ?thesis
    by (simp add: fetchDeviceData_def Date_now_def Let_def split_def)
qed

lemma fetchWithRetry_other_failure:
  assumes "\<And>rq. net e (calls w) rq = Response code body" "code \<noteq> 200" "code \<noteq> 429"
  shows "fst (fetchWithRetry e s rc w) =
           \<lparr>success = False, data = None, error = Some body, statusCode = code\<rparr> \<and>
         calls (snd (fetchWithRetry e s rc w)) = calls w + 1"
proof -
  let ?r = "\<lparr>success = False, data = None, error = Some body, statusCode = code\<rparr>"
  obtain w1 where fd: "fetchDeviceData e s w = (Resolved ?r, w1)"
    using assms by (simp add: fetchDeviceData_def Date_now_def Let_def split_def)
  have "\<not> retried (Resolved ?r) rc"
    using assms by (simp add: retried_def)
  then have "fetchWithRetry e s rc w = (?r, w1)"
    using fd fetchWithRetry_final [of e s w "Resolved ?r" w1 rc] by simp
  moreover have "calls w1 = Suc (calls w)"
    using fetchDeviceData_world [of e s w] fd by auto
  ultimately show ?thesis by simp
qed

text \<open>
  C2. MAX_RETRIES is 3. One call of fetchWithRetry makes at least one and at most
  \<open>1 + MAX_RETRIES\<close> attempts, whatever the peer does. Against a peer that answers
  every call with status 429 it makes exactly \<open>MAX_RETRIES + 1\<close> attempts and returns
  the outcome of the last one: the failure with status 429 and the body of that answer.
\<close>

theorem fetchWithRetry_bounded:
  "MAX_RETRIES = 3 \<and>
   (\<exists>seg. trace (snd (fetchWithRetry e snList 0 w)) = trace w @ seg \<and>
          retry_segment snList seg \<and>
          calls (snd (fetchWithRetry e snList 0 w)) = calls w + attempts seg \<and>
          1 \<le> attempts seg \<and> attempts seg \<le> 1 + MAX_RETRIES) \<and>
   ((\<forall>k rq. net e k rq = Response 429 (body k)) \<longrightarrow>
      (\<exists>seg. trace (snd (fetchWithRetry e snList 0 w)) = trace w @ seg \<and>
             attempts seg = MAX_RETRIES + 1) \<and>
      fst (fetchWithRetry e snList 0 w) =
        \<lparr>success = False, data = None, error = Some (body (calls w + MAX_RETRIES)),
         statusCode = 429\<rparr>)"
proof -
  obtain seg where seg: "trace (snd (fetchWithRetry e snList 0 w)) = trace w @ seg"
    "retry_segment snList seg"
    "calls (snd (fetchWithRetry e snList 0 w)) = calls w + attempts seg"
    "1 \<le> attempts seg" "attempts seg \<le> Suc (MAX_RETRIES - 0)"
    using fetchWithRetry_segment [of e snList 0 w] by blast
  have general: "\<exists>seg. trace (snd (fetchWithRetry e snList 0 w)) = trace w @ seg \<and>
          retry_segment snList seg \<and>
          calls (snd (fetchWithRetry e snList 0 w)) = calls w + attempts seg \<and>
          1 \<le> attempts seg \<and> attempts seg \<le> 1 + MAX_RETRIES"
    using seg by auto
  have limited: "(\<exists>seg. trace (snd (fetchWithRetry e snList 0 w)) = trace w @ seg \<and>
             attempts seg = MAX_RETRIES + 1) \<and>
      fst (fetchWithRetry e snList 0 w) =
        \<lparr>success = False, data = None, error = Some (body (calls w + MAX_RETRIES)),
         statusCode = 429\<rparr>"
    if always: "\<forall>k rq. net e k rq = Response 429 (body k)"
  proof -
    let ?p = "\<lambda>k. Resolved \<lparr>success = False, data = None, error = Some (body k),
        statusCode = 429\<rparr>"
    have ex: "fst (fetchWithRetry e snList 0 w) = settled_value (?p (calls w + (MAX_RETRIES - 0))) \<and>
         calls (snd (fetchWithRetry e snList 0 w)) = calls w + (MAX_RETRIES - 0) + 1"
    proof (rule fetchWithRetry_exhausted)
      show "\<exists>w1. fetchDeviceData e snList w' = (?p (calls w'), w1)" for w'
        using fetchDeviceData_429 [of e body snList w'] always by simp
      show "retried (?p k) rc" if "rc < MAX_RETRIES" for k rc
        using that by (simp add: retried_def)
      show "0 \<le> MAX_RETRIES" by simp
    qed
    then have "attempts seg = MAX_RETRIES + 1"
      using seg(3) by simp
    then show ?thesis using ex seg(1) by auto
  qed
  show ?thesis
    using general limited by (simp add: MAX_RETRIES_def)
qed

theorem fetchWithRetry_bounded_witness:
  "fst (fetchWithRetry (sample_env (\<lambda>k rq. Response 429 ''Too Many Requests''))
          [''SN-000''] 0 fresh_world) =
     \<lparr>success = False, data = None, error = Some ''Too Many Requests'', statusCode = 429\<rparr> \<and>
   attempts (trace (snd (fetchWithRetry (sample_env (\<lambda>k rq. Response 429 ''Too Many Requests''))
          [''SN-000''] 0 fresh_world))) = 4 \<and>
   calls (snd (fetchWithRetry (sample_env (\<lambda>k rq. Response 429 ''Too Many Requests''))
          [''SN-000''] 0 fresh_world)) = 4"
proof -
  let ?e = "sample_env (\<lambda>k rq. Response 429 ''Too Many Requests'')"
  have always: "\<forall>k rq. net ?e k rq = Response 429 ((\<lambda>k. ''Too Many Requests'') k)"
    by (simp add: sample_env_def)
  show ?thesis
    using fetchWithRetry_bounded [of ?e "[''SN-000'']" fresh_world "\<lambda>k. ''Too Many Requests''"]
      always
    by (auto simp: fresh_world_def)
qed

text \<open>
  C3, on the code. A failure whose status is neither 200 nor 429 is returned after a
  single attempt. An answer with status 200 and a body that cannot be parsed is not:
  fetchDeviceData rejects its promise, as it does for a network error, and the catch
  branch of fetchWithRetry retries every rejection. Against a peer that always sends
  such an answer four attempts are made, with the retry delay between them, before the
  parse failure is returned.
\<close>

theorem parse_failure_is_retried:
  "fetchWithRetry (sample_env (\<lambda>k rq. Response 200 ''<html>'')) [''SN-000''] 0 fresh_world =
     (\<lparr>success = False, data = None, error = Some ''Failed to parse response'',
       statusCode = 200\<rparr>,
      snd (fetchWithRetry (sample_env (\<lambda>k rq. Response 200 ''<html>'')) [''SN-000''] 0
             fresh_world)) \<and>
   calls (snd (fetchWithRetry (sample_env (\<lambda>k rq. Response 200 ''<html>'')) [''SN-000''] 0
             fresh_world)) = 4 \<and>
   map (\<lambda>ev. case ev of Request rq \<Rightarrow> Inl (sn_list rq) | Sleep ms \<Rightarrow> Inr ms)
     (trace (snd (fetchWithRetry (sample_env (\<lambda>k rq. Response 200 ''<html>'')) [''SN-000''] 0
             fresh_world))) =
     [Inl [''SN-000''], Inr 2000, Inl [''SN-000''], Inr 2000, Inl [''SN-000''], Inr 2000,
      Inl [''SN-000'']]"
  by (simp add: eval_simps)

lemma fetchWithRetry_parse_failure:
  assumes "\<And>k rq. \<exists>body. net e k rq = Response 200 body \<and> JSON_parse e body = None"
  shows "fst (fetchWithRetry e s 0 w) = parse_failure 200 \<and>
         calls (snd (fetchWithRetry e s 0 w)) = calls w + MAX_RETRIES + 1"
proof -
  let ?p = "\<lambda>k :: nat. Rejected (parse_failure 200)"
  have "fst (fetchWithRetry e s 0 w) = settled_value (?p (calls w + (MAX_RETRIES - 0))) \<and>
        calls (snd (fetchWithRetry e s 0 w)) = calls w + (MAX_RETRIES - 0) + 1"
  proof (rule fetchWithRetry_exhausted)
    show "\<exists>w1. fetchDeviceData e s w' = (?p (calls w'), w1)" for w'
      using fetchDeviceData_unparseable [of e s w'] assms by blast
    show "retried (?p k) rc" if "rc < MAX_RETRIES" for k rc
      using that by (simp add: retried_def)
    show "0 \<le> MAX_RETRIES" by simp
  qed
  then show ?thesis by simp
qed

lemma other_failure_once:
  "fst (fetchWithRetry (sample_env (\<lambda>k rq. Response 500 ''boom'')) [''SN-000''] 0 fresh_world) =
     \<lparr>success = False, data = None, error = Some ''boom'', statusCode = 500\<rparr> \<and>
   calls (snd (fetchWithRetry (sample_env (\<lambda>k rq. Response 500 ''boom'')) [''SN-000''] 0
             fresh_world)) = 1"
  by (simp add: eval_simps)


section \<open>Properties of the Aggregation Driver\<close>

lemma processBatches_done:
  "\<not> i < length batches \<Longrightarrow> processBatches e batches i d errs w = (Inr (d, errs), w)"
  by (subst processBatches.simps) simp

lemma processBatches_failed:
  assumes "i < length batches" "fetchWithRetry e (batches ! i) 0 w = (r, w1)" "\<not> delivered r"
  shows "processBatches e batches i d errs w =
         processBatches e batches (Suc i) d
           (errs @ [\<lparr>batch = Suc i, serialNumbers = batches ! i, failure_error = error r,
                     failure_statusCode = statusCode r\<rparr>])
           (pause_after batches i w1)"
  using assms by (subst processBatches.simps) (auto simp: delivered_def pause_after_def)

lemma processBatches_delivered:
  assumes "i < length batches" "fetchWithRetry e (batches ! i) 0 w = (r, w1)" "delivered r"
    "spread (data r) = Inr rows"
  shows "processBatches e batches i d errs w =
         processBatches e batches (Suc i) (d @ rows) errs (pause_after batches i w1)"
  using assms by (subst processBatches.simps) (auto simp: delivered_def pause_after_def)

lemma processBatches_thrown:
  assumes "i < length batches" "fetchWithRetry e (batches ! i) 0 w = (r, w1)" "delivered r"
    "spread (data r) = Inl x"
  shows "processBatches e batches i d errs w = (Inl x, w1)"
  using assms by (subst processBatches.simps) (auto simp: delivered_def)

lemma batch_results_done: "\<not> i < length batches \<Longrightarrow> batch_results e batches i w = []"
  by (subst batch_results.simps) simp

lemma batch_results_step:
  assumes "i < length batches" "fetchWithRetry e (batches ! i) 0 w = (r, w1)"
  shows "batch_results e batches i w = r # batch_results e batches (Suc i) (pause_after batches i w1)"
  using assms by (subst batch_results.simps) simp

lemma length_batch_results: "length (batch_results e batches i w) = length batches - i"
proof (induction "length batches - i" arbitrary: i w rule: less_induct)
  case less
  show ?case
  proof (cases "i < length batches")
    case True
    obtain r w1 where fr: "fetchWithRetry e (batches ! i) 0 w = (r, w1)"
      by (cases "fetchWithRetry e (batches ! i) 0 w")
    have "length batches - Suc i < length batches - i" using True by simp
    then show ?thesis
      using less.hyps [of "Suc i"] True by (simp add: batch_results_step [OF True fr])
  next
    case False
    then show ?thesis by (simp add: batch_results_done)
  qed
qed

lemma spread_exn: "spread v = Inl x \<Longrightarrow> x = TypeError"
  by (cases x) simp

text \<open>The accumulators at the end of a run that was not cut short.\<close>

lemma processBatches_returns:
  assumes "processBatches e batches i d errs w = (Inr (d', errs'), w')"
  shows "d' = d @ expected_data (batch_results e batches i w) \<and>
         errs' = errs @ expected_errors i (drop i batches) (batch_results e batches i w) \<and>
         \<not> list_ex malformed (batch_results e batches i w)"
  using assms
proof (induction "length batches - i" arbitrary: i d errs w rule: less_induct)
  case less
  show ?case
  proof (cases "i < length batches")
    case False
    then show ?thesis
      using less.prems
      by (simp add: processBatches_done batch_results_done expected_data_def)
  next
    case True
    obtain r w1 where fr: "fetchWithRetry e (batches ! i) 0 w = (r, w1)"
      by (cases "fetchWithRetry e (batches ! i) 0 w")
    let ?w2 = "pause_after batches i w1"
    let ?rs = "batch_results e batches (Suc i) ?w2"
    have rs: "batch_results e batches i w = r # ?rs"
      using True fr by (rule batch_results_step)
    have lt: "length batches - Suc i < length batches - i" using True by simp
    have dr: "drop i batches = batches ! i # drop (Suc i) batches"
      using True by (simp add: Cons_nth_drop_Suc)
    show ?thesis
    proof (cases "delivered r")
      case False
      let ?f = "\<lparr>batch = Suc i, serialNumbers = batches ! i, failure_error = error r,
          failure_statusCode = statusCode r\<rparr>"
      have "processBatches e batches (Suc i) d (errs @ [?f]) ?w2 = (Inr (d', errs'), w')"
        using less.prems processBatches_failed [OF True fr False] by simp
      from less.hyps [OF lt this] show ?thesis
        using False rs dr by (simp add: expected_data_def malformed_def)
    next
      case True
      note del = this
      show ?thesis
      proof (cases "spread (data r)")
        case (Inl x)
        then show ?thesis
          using less.prems processBatches_thrown [OF \<open>i < length batches\<close> fr del Inl] by simp
      next
        case (Inr rows)
        have "processBatches e batches (Suc i) (d @ rows) errs ?w2 = (Inr (d', errs'), w')"
          using less.prems processBatches_delivered [OF \<open>i < length batches\<close> fr del Inr] by simp
        from less.hyps [OF lt this] show ?thesis
          using del rs dr Inr by (simp add: expected_data_def malformed_def records_of_def)
      qed
    qed
  qed
qed

text \<open>A run is cut short only by a delivered result that cannot be spread.\<close>

lemma processBatches_throws:
  assumes "processBatches e batches i d errs w = (Inl x, w')"
  shows "x = TypeError \<and> list_ex malformed (batch_results e batches i w)"
  using assms
proof (induction "length batches - i" arbitrary: i d errs w rule: less_induct)
  case less
  show ?case
  proof (cases "i < length batches")
    case False
    then show ?thesis
      using less.prems by (simp add: processBatches_done)
  next
    case True
    obtain r w1 where fr: "fetchWithRetry e (batches ! i) 0 w = (r, w1)"
      by (cases "fetchWithRetry e (batches ! i) 0 w")
    let ?w2 = "pause_after batches i w1"
    have rs: "batch_results e batches i w = r # batch_results e batches (Suc i) ?w2"
      using True fr by (rule batch_results_step)
    have lt: "length batches - Suc i < length batches - i" using True by simp
    show ?thesis
    proof (cases "delivered r")
      case False
      let ?f = "\<lparr>batch = Suc i, serialNumbers = batches ! i, failure_error = error r,
          failure_statusCode = statusCode r\<rparr>"
      have "processBatches e batches (Suc i) d (errs @ [?f]) ?w2 = (Inl x, w')"
        using less.prems processBatches_failed [OF True fr False] by simp
      from less.hyps [OF lt this] show ?thesis
        using rs by simp
    next
      case True
      note del = this
      show ?thesis
      proof (cases "spread (data r)")
        case (Inl y)
        have "x = y"
          using less.prems processBatches_thrown [OF \<open>i < length batches\<close> fr del Inl] by simp
        then show ?thesis
          using Inl del rs spread_exn [OF Inl] by (simp add: malformed_def)
      next
        case (Inr rows)
        have "processBatches e batches (Suc i) (d @ rows) errs ?w2 = (Inl x, w')"
          using less.prems processBatches_delivered [OF \<open>i < length batches\<close> fr del Inr] by simp
        from less.hyps [OF lt this] show ?thesis
          using rs by simp
      qed
    qed
  qed
qed

lemma join_Cons: "join sep (s # ss) = (if ss = [] then s else s @ sep @ join sep ss)"
  by (cases ss) simp_all

lemma fetchWithRetry_trace:
  obtains seg where "trace (snd (fetchWithRetry e s rc w)) = trace w @ seg"
    "retry_segment s seg"
  using fetchWithRetry_segment [of e s rc w] by blast

lemma pause_after_trace:
  "trace (pause_after batches i w) =
     trace w @ (if Suc i < length batches then [Sleep RATE_LIMIT_MS] else [])"
  by (auto simp: pause_after_def sleep_def)

text \<open>The events of a run: one segment for each batch that was dispatched, and exactly
  one pause between two neighbouring segments.\<close>

lemma processBatches_trace:
  "\<exists>segs. trace (snd (processBatches e batches i d errs w)) =
            trace w @ join [Sleep RATE_LIMIT_MS] segs \<and>
          list_all2 retry_segment (take (length segs) (drop i batches)) segs \<and>
          length segs \<le> length batches - i \<and>
          (i < length batches \<longrightarrow> segs \<noteq> []) \<and>
          (isl (fst (processBatches e batches i d errs w)) \<or>
           length segs = length batches - i)"
proof (induction "length batches - i" arbitrary: i d errs w rule: less_induct)
  case less
  show ?case
  proof (cases "i < length batches")
    case False
    have "trace (snd (processBatches e batches i d errs w)) =
            trace w @ join [Sleep RATE_LIMIT_MS] []"
      using False by (simp add: processBatches_done)
    then show ?thesis
      using False by (intro exI [of _ "[]"]) simp
  next
    case True
    obtain r w1 where fr: "fetchWithRetry e (batches ! i) 0 w = (r, w1)"
      by (cases "fetchWithRetry e (batches ! i) 0 w")
    obtain seg where seg: "trace w1 = trace w @ seg" "retry_segment (batches ! i) seg"
      using fetchWithRetry_trace [of e "batches ! i" 0 w] fr by auto
    let ?w2 = "pause_after batches i w1"
    have lt: "length batches - Suc i < length batches - i" using True by simp
    have dr: "drop i batches = batches ! i # drop (Suc i) batches"
      using True by (simp add: Cons_nth_drop_Suc)
    have cut: "\<exists>segs. trace (snd (Inl x :: exn + json list \<times> failure list, w1)) =
            trace w @ join [Sleep RATE_LIMIT_MS] segs \<and>
          list_all2 retry_segment (take (length segs) (drop i batches)) segs \<and>
          length segs \<le> length batches - i \<and>
          (i < length batches \<longrightarrow> segs \<noteq> []) \<and>
          (isl (fst (Inl x :: exn + json list \<times> failure list, w1)) \<or>
           length segs = length batches - i)" for x
      using seg True dr by (intro exI [of _ "[seg]"]) simp
    have go: "\<exists>segs. trace (snd (processBatches e batches (Suc i) d2 errs2 ?w2)) =
            trace w @ join [Sleep RATE_LIMIT_MS] segs \<and>
          list_all2 retry_segment (take (length segs) (drop i batches)) segs \<and>
          length segs \<le> length batches - i \<and>
          (i < length batches \<longrightarrow> segs \<noteq> []) \<and>
          (isl (fst (processBatches e batches (Suc i) d2 errs2 ?w2)) \<or>
           length segs = length batches - i)" for d2 errs2
    proof -
      let ?out = "processBatches e batches (Suc i) d2 errs2 ?w2"
      obtain segs where segs: "trace (snd ?out) = trace ?w2 @ join [Sleep RATE_LIMIT_MS] segs"
        "list_all2 retry_segment (take (length segs) (drop (Suc i) batches)) segs"
        "length segs \<le> length batches - Suc i"
        "Suc i < length batches \<longrightarrow> segs \<noteq> []"
        "isl (fst ?out) \<or> length segs = length batches - Suc i"
        using less.hyps [OF lt, of d2 errs2 ?w2] by blast
      have "trace (snd ?out) = trace w @ join [Sleep RATE_LIMIT_MS] (seg # segs)"
      proof (cases "Suc i < length batches")
        case True
        then show ?thesis
          using segs(1,4) seg(1) by (simp add: pause_after_trace join_Cons)
      next
        case False
        then have "segs = []" using segs(3) by simp
        then show ?thesis
          using segs(1) seg(1) False by (simp add: pause_after_trace)
      qed
      moreover have "list_all2 retry_segment (take (length (seg # segs)) (drop i batches))
          (seg # segs)"
        using segs(2) seg(2) dr by simp
      moreover have "length (seg # segs) \<le> length batches - i"
        using segs(3) True by simp
      moreover have "isl (fst ?out) \<or> length (seg # segs) = length batches - i"
        using segs(5) True by auto
      ultimately show ?thesis
        by (intro exI [of _ "seg # segs"]) simp
    qed
    show ?thesis
    proof (cases "delivered r")
      case False
      show ?thesis
        using go by (simp add: processBatches_failed [OF True fr False])
    next
      case del: True
      show ?thesis
      proof (cases "spread (data r)")
        case (Inl x)
        show ?thesis
          using cut [of x] by (simp add: processBatches_thrown [OF True fr del Inl])
      next
        case (Inr rows)
        show ?thesis
          using go by (simp add: processBatches_delivered [OF True fr del Inr])
      qed
    qed
  qed
qed

lemma length_pieces: "0 < n \<Longrightarrow> length (pieces n xs) = (length xs + n - 1) div n"
proof (induction n xs rule: pieces.induct)
  case (1 n xs)
  show ?case
  proof (cases "xs = []")
    case True
    then show ?thesis using "1.prems" by (simp add: pieces_Nil)
  next
    case False
    have st: "pieces n xs = take n xs # pieces n (drop n xs)"
      using pieces_step [OF "1.prems" False] .
    have ih: "length (pieces n (drop n xs)) = (length (drop n xs) + n - 1) div n"
      using "1.IH" "1.prems" False by simp
    show ?thesis
    proof (cases "length xs \<le> n")
      case True
      have pos: "1 \<le> length xs" using False by (cases xs) simp_all
      have "(length xs + n - 1) div n = 1"
      proof (rule div_nat_eqI)
        show "n * 1 \<le> length xs + n - 1" using pos by linarith
        show "length xs + n - 1 < n * Suc 1" using pos True "1.prems" by simp
      qed
      then show ?thesis using st ih True "1.prems" by simp
    next
      case False
      then have "length xs + n - 1 = (length xs - n + n - 1) + n" by simp
      then have "(length xs + n - 1) div n = Suc ((length xs - n + n - 1) div n)"
        using "1.prems" by (metis div_add_self2 less_numeral_extra(3) Suc_eq_plus1)
      then show ?thesis using st ih by simp
    qed
  qed
qed

lemma generateSerialNumbers_loop_map:
  "i \<le> 500 \<Longrightarrow>
   generateSerialNumbers_loop i acc =
     acc @ map (\<lambda>k. ''SN-'' @ padStart 3 (CHR ''0'') (String_of_nat k)) [i..<500]"
proof (induction "500 - i" arbitrary: i acc rule: less_induct)
  case less
  show ?case
  proof (cases "i < 500")
    case True
    have "500 - Suc i < 500 - i" using True by simp
    then have "generateSerialNumbers_loop (Suc i)
        (acc @ [''SN-'' @ padStart 3 (CHR ''0'') (String_of_nat i)]) =
        (acc @ [''SN-'' @ padStart 3 (CHR ''0'') (String_of_nat i)]) @
        map (\<lambda>k. ''SN-'' @ padStart 3 (CHR ''0'') (String_of_nat k)) [Suc i..<500]"
      using less.hyps [of "Suc i"] True by simp
    then show ?thesis
      using True by (subst generateSerialNumbers_loop.simps) (simp add: upt_conv_Cons)
  next
    case False
    then show ?thesis
      using less.prems by (subst generateSerialNumbers_loop.simps) simp
  qed
qed

lemma generateSerialNumbers_map:
  "generateSerialNumbers =
     map (\<lambda>k. ''SN-'' @ padStart 3 (CHR ''0'') (String_of_nat k)) [0..<500]"
  by (simp add: generateSerialNumbers_def generateSerialNumbers_loop_map)

lemma length_generateSerialNumbers: "length generateSerialNumbers = 500"
  by (simp add: generateSerialNumbers_map)

text \<open>The population runs from SN-000 to SN-499, as the source's comment says.\<close>

lemma generateSerialNumbers_ends:
  "generateSerialNumbers ! 0 = ''SN-000'' \<and> generateSerialNumbers ! 42 = ''SN-042'' \<and>
   generateSerialNumbers ! 499 = ''SN-499''"
  by (simp add: generateSerialNumbers_map padStart_def String_of_nat.simps digit_char_def
      numeral_2_eq_2)

lemma driver_batches:
  "createBatches generateSerialNumbers BATCH_SIZE = Some (pieces 10 generateSerialNumbers) \<and>
   length (pieces 10 generateSerialNumbers) = 50 \<and>
   concat (pieces 10 generateSerialNumbers) = generateSerialNumbers"
  using createBatches_pos [of BATCH_SIZE generateSerialNumbers]
    length_pieces [of 10 generateSerialNumbers] concat_pieces [of 10 generateSerialNumbers]
  by (simp add: BATCH_SIZE_def length_generateSerialNumbers)

lemma aggregateDeviceData_unfold:
  "aggregateDeviceData e w =
     (let out = processBatches e (pieces 10 generateSerialNumbers) 0 [] []
                  (w\<lparr>reads := Suc (reads w)\<rparr>)
      in case fst out of
           Inl x \<Rightarrow> Some (Inl x, snd out)
         | Inr acc \<Rightarrow>
             Some (Inr \<lparr>report_success = True, totalDevices = 500,
                        fetchedDevices = length (fst acc), failedBatches = length (snd acc),
                        executionTimeMs = int (now e (reads (snd out))) - int (now e (reads w)),
                        report_data = fst acc, report_errors = snd acc\<rparr>,
                   (snd out)\<lparr>reads := Suc (reads (snd out))\<rparr>))"
  using driver_batches
  by (simp add: aggregateDeviceData_def Date_now_def Let_def split: prod.splits sum.splits)

lemma length_expected_errors:
  "length bs = length rs \<Longrightarrow>
   length (expected_errors i bs rs) = length (filter (\<lambda>r. \<not> delivered r) rs)"
  by (induction bs rs arbitrary: i rule: list_induct2) simp_all

lemma processBatches_complete:
  assumes "\<not> list_ex malformed (batch_results e batches i w)"
  shows "\<exists>w'. processBatches e batches i d errs w =
           (Inr (d @ expected_data (batch_results e batches i w),
                 errs @ expected_errors i (drop i batches) (batch_results e batches i w)), w')"
proof (cases "processBatches e batches i d errs w")
  case (Pair res w')
  show ?thesis
  proof (cases res)
    case (Inl x)
    then show ?thesis
      using processBatches_throws [of e batches i d errs w x w'] Pair assms by simp
  next
    case (Inr acc)
    then show ?thesis
      using processBatches_returns [of e batches i d errs w "fst acc" "snd acc" w'] Pair
      by (simp add: prod_eq_iff)
  qed
qed

lemma processBatches_aborted:
  assumes "list_ex malformed (batch_results e batches i w)"
  shows "\<exists>w'. processBatches e batches i d errs w = (Inl TypeError, w')"
proof (cases "processBatches e batches i d errs w")
  case (Pair res w')
  show ?thesis
  proof (cases res)
    case (Inl x)
    then show ?thesis
      using processBatches_throws [of e batches i d errs w x w'] Pair by simp
  next
    case (Inr acc)
    then show ?thesis
      using processBatches_returns [of e batches i d errs w "fst acc" "snd acc" w'] Pair assms
      by simp
  qed
qed

lemma batch_results_all:
  assumes "\<And>s v. P (fst (fetchWithRetry e s 0 v))"
  shows "list_all P (batch_results e batches i w)"
proof (induction "length batches - i" arbitrary: i w rule: less_induct)
  case less
  show ?case
  proof (cases "i < length batches")
    case True
    obtain r w1 where fr: "fetchWithRetry e (batches ! i) 0 w = (r, w1)"
      by (cases "fetchWithRetry e (batches ! i) 0 w")
    have "P r"
      using assms [of "batches ! i" w] fr by simp
    moreover have "length batches - Suc i < length batches - i" using True by simp
    ultimately show ?thesis
      using less.hyps [of "Suc i"] by (simp add: batch_results_step [OF True fr])
  next
    case False
    then show ?thesis by (simp add: batch_results_done)
  qed
qed

lemma expected_errors_all:
  assumes "list_all (\<lambda>r. \<not> delivered r \<and> Q (error r) (statusCode r)) rs"
  shows "list_all (\<lambda>f. Q (failure_error f) (failure_statusCode f)) (expected_errors i bs rs)"
  using assms
  by (induction i bs rs rule: expected_errors.induct) simp_all

text \<open>A result that is a failure is never delivered, so the failures are among the
  results the driver records.\<close>

lemma failures_not_delivered:
  "length (filter (\<lambda>r. \<not> success r) rs) \<le> length (filter (\<lambda>r. \<not> delivered r) rs)"
proof (induction rs)
  case Nil
  show ?case by simp
next
  case (Cons r rs)
  then show ?case by (auto simp: delivered_def)
qed

lemma empty_answer_result:
  "fetchWithRetry (sample_env (\<lambda>k rq. Response 200 ''empty'')) s rc w =
     (\<lparr>success = True, data = None, error = None, statusCode = 200\<rparr>,
      snd (fetchDeviceData (sample_env (\<lambda>k rq. Response 200 ''empty'')) s w))"
  by (subst fetchWithRetry_eval)
    (simp add: fetchDeviceData_def Date_now_def sample_env_def sample_parse_def retried_def
      Let_def split_def)

text \<open>
  C5, as the code has it. aggregateDeviceData cuts the 500 serial numbers into 50
  batches and always returns. Unless a delivered result cannot be spread (then the run
  ends with a TypeError and there is no report), it returns a report in which
  \<open>totalDevices\<close> is the size of the population, \<open>fetchedDevices\<close> is the length of the
  data list and \<open>failedBatches\<close> is the length of the errors list. What decides where a
  batch goes is the driver's own test \<^verbatim>\<open>result.success && result.data\<close>: the data list
  is the records of the batches whose final result passes it, one after the other, in
  batch order and in the order the peer gave them, and the errors list has exactly one
  descriptor for each batch whose final result does not pass it. Every batch that failed
  for good is among those, and so is a batch that was answered successfully without data.
\<close>

theorem aggregateDeviceData_report:
  "\<exists>batches. createBatches generateSerialNumbers BATCH_SIZE = Some batches \<and>
      length batches = 50 \<and> concat batches = generateSerialNumbers \<and>
      (let rs = batch_results e batches 0 (snd (Date_now e w))
       in length rs = length batches \<and>
          (if list_ex malformed rs
           then \<exists>w'. aggregateDeviceData e w = Some (Inl TypeError, w')
           else \<exists>rep w'. aggregateDeviceData e w = Some (Inr rep, w') \<and>
                  totalDevices rep = length generateSerialNumbers \<and>
                  fetchedDevices rep = length (report_data rep) \<and>
                  failedBatches rep = length (report_errors rep) \<and>
                  report_data rep = expected_data rs \<and>
                  report_errors rep = expected_errors 0 batches rs \<and>
                  length (report_errors rep) = length (filter (\<lambda>r. \<not> delivered r) rs) \<and>
                  length (filter (\<lambda>r. \<not> success r) rs) \<le> failedBatches rep))"
proof -
  let ?bs = "pieces 10 generateSerialNumbers"
  let ?w1 = "w\<lparr>reads := Suc (reads w)\<rparr>"
  let ?rs = "batch_results e ?bs 0 ?w1"
  have len: "length ?rs = length ?bs"
    by (simp add: length_batch_results)
  have body: "if list_ex malformed ?rs
           then \<exists>w'. aggregateDeviceData e w = Some (Inl TypeError, w')
           else \<exists>rep w'. aggregateDeviceData e w = Some (Inr rep, w') \<and>
                  totalDevices rep = length generateSerialNumbers \<and>
                  fetchedDevices rep = length (report_data rep) \<and>
                  failedBatches rep = length (report_errors rep) \<and>
                  report_data rep = expected_data ?rs \<and>
                  report_errors rep = expected_errors 0 ?bs ?rs \<and>
                  length (report_errors rep) = length (filter (\<lambda>r. \<not> delivered r) ?rs) \<and>
                  length (filter (\<lambda>r. \<not> success r) ?rs) \<le> failedBatches rep"
  proof (cases "list_ex malformed ?rs")
    case True
    obtain w' where "processBatches e ?bs 0 [] [] ?w1 = (Inl TypeError, w')"
      using processBatches_aborted [OF True] by blast
    then show ?thesis
      using True by (simp add: aggregateDeviceData_unfold)
  next
    case False
    obtain w' where "processBatches e ?bs 0 [] [] ?w1 =
        (Inr ([] @ expected_data ?rs, [] @ expected_errors 0 (drop 0 ?bs) ?rs), w')"
      using processBatches_complete [OF False] by blast
    then show ?thesis
      using False len length_expected_errors [of ?bs ?rs 0] failures_not_delivered [of ?rs]
      by (simp add: aggregateDeviceData_unfold length_generateSerialNumbers)
  qed
  show ?thesis
    using driver_batches len body
    by (intro exI [of _ ?bs]) (simp add: Date_now_def Let_def)
qed

text \<open>
  The claim that the errors list has one entry per batch that failed for good, and that
  the data list gathers every successful batch, does not hold of the code. Against a
  peer that answers every request with status 200 and a body that parses to an object
  without \<^verbatim>\<open>data\<close>, the Retry Policy returns a success after one attempt for every one
  of the 50 batches, none fails, and the report still counts 50 failed batches, with 50
  descriptors of status 200 and no error text.
\<close>

theorem success_counted_as_failed:
  "fst (fetchWithRetry (sample_env (\<lambda>k rq. Response 200 ''empty'')) [''SN-000''] 0 fresh_world) =
     \<lparr>success = True, data = None, error = None, statusCode = 200\<rparr> \<and>
   calls (snd (fetchWithRetry (sample_env (\<lambda>k rq. Response 200 ''empty'')) [''SN-000''] 0
     fresh_world)) = 1 \<and>
   list_all success
     (batch_results (sample_env (\<lambda>k rq. Response 200 ''empty''))
        (pieces 10 generateSerialNumbers) 0
        (snd (Date_now (sample_env (\<lambda>k rq. Response 200 ''empty'')) fresh_world))) \<and>
   (\<exists>rep w'. aggregateDeviceData (sample_env (\<lambda>k rq. Response 200 ''empty'')) fresh_world =
        Some (Inr rep, w') \<and>
      failedBatches rep = 50 \<and> length (report_errors rep) = 50 \<and> fetchedDevices rep = 0 \<and>
      list_all (\<lambda>f. failure_error f = None \<and> failure_statusCode f = 200) (report_errors rep))"
proof -
  let ?e = "sample_env (\<lambda>k rq. Response 200 ''empty'')"
  let ?r = "\<lparr>success = True, data = None, error = None, statusCode = 200\<rparr>"
  let ?bs = "pieces 10 generateSerialNumbers"
  let ?w1 = "fresh_world\<lparr>reads := Suc (reads fresh_world)\<rparr>"
  let ?rs = "batch_results ?e ?bs 0 ?w1"
  have one: "fst (fetchWithRetry ?e [''SN-000''] 0 fresh_world) = ?r \<and>
      calls (snd (fetchWithRetry ?e [''SN-000''] 0 fresh_world)) = 1"
    by (simp add: empty_answer_result fetchDeviceData_snd fresh_world_def)
  have all: "list_all (\<lambda>r. r = ?r) ?rs"
    by (rule batch_results_all) (simp add: empty_answer_result)
  have succ: "list_all success ?rs"
    using all by (auto simp: list_all_iff)
  have nd: "list_all (\<lambda>r. \<not> delivered r \<and> (error r = None \<and> statusCode r = 200)) ?rs"
    using all by (auto simp: list_all_iff delivered_def)
  have nm: "\<not> list_ex malformed ?rs"
    using all by (auto simp: list_all_iff list_ex_iff malformed_def delivered_def)
  have data: "expected_data ?rs = []"
    using all by (auto simp: expected_data_def list_all_iff delivered_def filter_empty_conv)
  have keep: "filter (\<lambda>r. \<not> delivered r) ?rs = ?rs"
    using nd by (auto simp: list_all_iff)
  have len: "length ?rs = 50"
    using driver_batches by (simp add: length_batch_results)
  have nerr: "length (expected_errors 0 ?bs ?rs) = 50"
    using length_expected_errors [of ?bs ?rs 0] keep len driver_batches by simp
  have errs: "list_all (\<lambda>f. failure_error f = None \<and> failure_statusCode f = 200)
      (expected_errors 0 ?bs ?rs)"
    using expected_errors_all [of "\<lambda>e c. e = None \<and> c = 200" ?rs 0 ?bs] nd by simp
  obtain v where run: "processBatches ?e ?bs 0 [] [] ?w1 =
      (Inr ([] @ expected_data ?rs, [] @ expected_errors 0 (drop 0 ?bs) ?rs), v)"
    using processBatches_complete [OF nm] by blast
  have rep: "\<exists>rep w'. aggregateDeviceData ?e fresh_world = Some (Inr rep, w') \<and>
      failedBatches rep = 50 \<and> length (report_errors rep) = 50 \<and> fetchedDevices rep = 0 \<and>
      list_all (\<lambda>f. failure_error f = None \<and> failure_statusCode f = 200) (report_errors rep)"
    using run data nerr errs by (simp add: aggregateDeviceData_unfold)
  show ?thesis
    using one succ rep by (simp add: Date_now_def)
qed


section \<open>The claims about the run\<close>

lemma retry_segment_request:
  "retry_segment b seg \<Longrightarrow> \<exists>rq. Request rq \<in> set seg \<and> sn_list rq = b"
  by (induction b seg rule: retry_segment.induct) auto

lemma set_join: "seg \<in> set segs \<Longrightarrow> set seg \<subseteq> set (join sep segs)"
  by (induction sep segs rule: join.induct) auto

lemma processBatches_dispatches:
  assumes "processBatches e batches 0 d errs w = (Inr acc, w')"
  shows "\<forall>b\<in>set batches. \<exists>rq. Request rq \<in> set (trace w') \<and> sn_list rq = b"
proof
  fix b assume "b \<in> set batches"
  then obtain k where k: "k < length batches" "batches ! k = b"
    by (auto simp: in_set_conv_nth)
  obtain segs where segs:
    "trace (snd (processBatches e batches 0 d errs w)) = trace w @ join [Sleep RATE_LIMIT_MS] segs"
    "list_all2 retry_segment (take (length segs) (drop 0 batches)) segs"
    "isl (fst (processBatches e batches 0 d errs w)) \<or> length segs = length batches - 0"
    using processBatches_trace [of e batches 0 d errs w] by blast
  have len: "length segs = length batches"
    using segs(3) assms by simp
  then have "retry_segment (batches ! k) (segs ! k)"
    using segs(2) k(1) by (simp add: list_all2_conv_all_nth)
  then obtain rq where rq: "Request rq \<in> set (segs ! k)" "sn_list rq = b"
    using retry_segment_request k(2) by blast
  have "segs ! k \<in> set segs" using k(1) len by simp
  then have "Request rq \<in> set (join [Sleep RATE_LIMIT_MS] segs)"
    using rq(1) set_join by blast
  then show "\<exists>rq. Request rq \<in> set (trace w') \<and> sn_list rq = b"
    using segs(1) assms rq(2) by auto
qed

lemma malformed_success: "malformed r \<Longrightarrow> success r"
  by (simp add: malformed_def delivered_def)

text \<open>
  C4. When the Retry Policy returns a failure for batch \<open>i\<close>, the loop goes on with
  batch \<open>i + 1\<close> after appending exactly one descriptor to the errors (the batch number
  \<open>i + 1\<close>, the batch, the error and the status code of the result) and leaving the data
  untouched. A run is cut short only by a successful result whose payload cannot be
  spread, never by a failure; a run that is not cut short returns the descriptors of
  exactly the batches that were not delivered, in order, and has sent a request for every
  batch.
\<close>

theorem terminal_failure_recorded:
  "(i < length batches \<and> \<not> success (fst (fetchWithRetry e (batches ! i) 0 w)) \<longrightarrow>
      processBatches e batches i d errs w =
        processBatches e batches (Suc i) d
          (errs @ [\<lparr>batch = Suc i, serialNumbers = batches ! i,
                     failure_error = error (fst (fetchWithRetry e (batches ! i) 0 w)),
                     failure_statusCode = statusCode (fst (fetchWithRetry e (batches ! i) 0 w))\<rparr>])
          (pause_after batches i (snd (fetchWithRetry e (batches ! i) 0 w)))) \<and>
   (\<forall>x w'. processBatches e batches 0 [] [] w = (Inl x, w') \<longrightarrow>
      (\<exists>r\<in>set (batch_results e batches 0 w). success r \<and> malformed r)) \<and>
   (\<not> list_ex malformed (batch_results e batches 0 w) \<longrightarrow>
      (\<exists>d' w'. processBatches e batches 0 [] [] w =
          (Inr (d', expected_errors 0 batches (batch_results e batches 0 w)), w') \<and>
        length (expected_errors 0 batches (batch_results e batches 0 w)) =
          length (filter (\<lambda>r. \<not> delivered r) (batch_results e batches 0 w)) \<and>
        (\<forall>b\<in>set batches. \<exists>rq. Request rq \<in> set (trace w') \<and> sn_list rq = b)))"
proof (intro conjI impI allI)
  assume a: "i < length batches \<and> \<not> success (fst (fetchWithRetry e (batches ! i) 0 w))"
  obtain r w1 where fr: "fetchWithRetry e (batches ! i) 0 w = (r, w1)"
    by (cases "fetchWithRetry e (batches ! i) 0 w")
  have "\<not> delivered r" using a fr by (simp add: delivered_def)
  then show "processBatches e batches i d errs w =
        processBatches e batches (Suc i) d
          (errs @ [\<lparr>batch = Suc i, serialNumbers = batches ! i,
                     failure_error = error (fst (fetchWithRetry e (batches ! i) 0 w)),
                     failure_statusCode = statusCode (fst (fetchWithRetry e (batches ! i) 0 w))\<rparr>])
          (pause_after batches i (snd (fetchWithRetry e (batches ! i) 0 w)))"
    using processBatches_failed [of i batches e w r w1 d errs] a fr by simp
next
  fix x w'
  assume "processBatches e batches 0 [] [] w = (Inl x, w')"
  then have "list_ex malformed (batch_results e batches 0 w)"
    using processBatches_throws by blast
  then show "\<exists>r\<in>set (batch_results e batches 0 w). success r \<and> malformed r"
    using malformed_success by (auto simp: list_ex_iff)
next
  assume ok: "\<not> list_ex malformed (batch_results e batches 0 w)"
  obtain w' where run: "processBatches e batches 0 [] [] w =
      (Inr ([] @ expected_data (batch_results e batches 0 w),
            [] @ expected_errors 0 (drop 0 batches) (batch_results e batches 0 w)), w')"
    using processBatches_complete [OF ok] by blast
  have "length batches = length (batch_results e batches 0 w)"
    by (simp add: length_batch_results)
  then have "length (expected_errors 0 batches (batch_results e batches 0 w)) =
          length (filter (\<lambda>r. \<not> delivered r) (batch_results e batches 0 w))"
    by (rule length_expected_errors)
  moreover have "\<forall>b\<in>set batches. \<exists>rq. Request rq \<in> set (trace w') \<and> sn_list rq = b"
    using run by (rule processBatches_dispatches)
  ultimately show "\<exists>d' w'. processBatches e batches 0 [] [] w =
          (Inr (d', expected_errors 0 batches (batch_results e batches 0 w)), w') \<and>
        length (expected_errors 0 batches (batch_results e batches 0 w)) =
          length (filter (\<lambda>r. \<not> delivered r) (batch_results e batches 0 w)) \<and>
        (\<forall>b\<in>set batches. \<exists>rq. Request rq \<in> set (trace w') \<and> sn_list rq = b)"
    using run by auto
qed

theorem terminal_failure_recorded_witness:
  "\<not> success (fst (fetchWithRetry
       (sample_env (\<lambda>k rq. if k = 0 then Response 500 ''boom'' else Response 200 ''rows''))
       [''SN-000''] 0 fresh_world)) \<and>
   batch_results
     (sample_env (\<lambda>k rq. if k = 0 then Response 500 ''boom'' else Response 200 ''rows''))
     [[''SN-000''], [''SN-001'']] 0 fresh_world =
     [\<lparr>success = False, data = None, error = Some ''boom'', statusCode = 500\<rparr>,
      \<lparr>success = True, data = Some (JArr [JStr ''r1'', JStr ''r2'']), error = None,
       statusCode = 200\<rparr>] \<and>
   fst (processBatches
     (sample_env (\<lambda>k rq. if k = 0 then Response 500 ''boom'' else Response 200 ''rows''))
     [[''SN-000''], [''SN-001'']] 0 [] [] fresh_world) =
     Inr ([JStr ''r1'', JStr ''r2''],
          [\<lparr>batch = 1, serialNumbers = [''SN-000''], failure_error = Some ''boom'',
            failure_statusCode = 500\<rparr>]) \<and>
   attempts (trace (snd (processBatches
     (sample_env (\<lambda>k rq. if k = 0 then Response 500 ''boom'' else Response 200 ''rows''))
     [[''SN-000''], [''SN-001'']] 0 [] [] fresh_world))) = 2"
  using terminal_failure_recorded
    [of 0 "[[''SN-000''], [''SN-001'']]"
      "sample_env (\<lambda>k rq. if k = 0 then Response 500 ''boom'' else Response 200 ''rows'')"
      fresh_world "[]" "[]"]
  by (simp add: eval_simps processBatches_eval batch_results_eval delivered_def
      pause_after_def malformed_def)

text \<open>
  C9. The events of a run are the segments of the batches that were dispatched, in batch
  order, with exactly one sleep of RATE_LIMIT_MS (1000 ms) between two neighbouring
  segments and none after the last. A segment holds the requests for its own batch and
  the retry delays between them and nothing else, so two batches are never dispatched
  without that sleep in between, whatever the outcome of the earlier one. This holds of
  the loop on any list of batches and of aggregateDeviceData on its 50 batches. The sleep
  is a step of the run; how long it lasts on a clock is not part of the model.
\<close>

theorem inter_batch_spacing:
  "RATE_LIMIT_MS = 1000 \<and> RETRY_DELAY_MS \<noteq> RATE_LIMIT_MS \<and>
   (\<exists>segs. trace (snd (processBatches e batches 0 d errs w)) =
            trace w @ join [Sleep RATE_LIMIT_MS] segs \<and>
          list_all2 retry_segment (take (length segs) batches) segs \<and>
          length segs \<le> length batches \<and>
          (isl (fst (processBatches e batches 0 d errs w)) \<or> length segs = length batches)) \<and>
   (\<exists>out segs. aggregateDeviceData e w = Some out \<and>
          trace (snd out) = trace w @ join [Sleep RATE_LIMIT_MS] segs \<and>
          list_all2 retry_segment (take (length segs) (pieces 10 generateSerialNumbers)) segs \<and>
          length segs \<le> 50 \<and> (isl (fst out) \<or> length segs = 50))"
proof -
  have loop: "\<exists>segs. trace (snd (processBatches e bs 0 d errs v)) =
            trace v @ join [Sleep RATE_LIMIT_MS] segs \<and>
          list_all2 retry_segment (take (length segs) bs) segs \<and>
          length segs \<le> length bs \<and>
          (isl (fst (processBatches e bs 0 d errs v)) \<or> length segs = length bs)"
    for bs d errs v
    using processBatches_trace [of e bs 0 d errs v] by auto
  let ?bs = "pieces 10 generateSerialNumbers"
  let ?w1 = "w\<lparr>reads := Suc (reads w)\<rparr>"
  let ?run = "processBatches e ?bs 0 [] [] ?w1"
  obtain segs where segs: "trace (snd ?run) = trace ?w1 @ join [Sleep RATE_LIMIT_MS] segs"
    "list_all2 retry_segment (take (length segs) ?bs) segs"
    "length segs \<le> length ?bs" "isl (fst ?run) \<or> length segs = length ?bs"
    using loop [of ?bs "[]" "[]" ?w1] by blast
  have "\<exists>out. aggregateDeviceData e w = Some out \<and>
          trace (snd out) = trace w @ join [Sleep RATE_LIMIT_MS] segs \<and>
          (isl (fst out) \<or> length segs = 50)"
    using segs(1,4) driver_batches
    by (cases "fst ?run") (auto simp: aggregateDeviceData_unfold Let_def)
  then have driver: "\<exists>out segs. aggregateDeviceData e w = Some out \<and>
          trace (snd out) = trace w @ join [Sleep RATE_LIMIT_MS] segs \<and>
          list_all2 retry_segment (take (length segs) ?bs) segs \<and>
          length segs \<le> 50 \<and> (isl (fst out) \<or> length segs = 50)"
    using segs(2,3) driver_batches by auto
  show ?thesis
    using loop [of batches d errs w] driver
    by (simp add: RATE_LIMIT_MS_def RETRY_DELAY_MS_def)
qed

theorem inter_batch_spacing_witness:
  "map (\<lambda>ev. case ev of Request rq \<Rightarrow> Inl (sn_list rq) | Sleep ms \<Rightarrow> Inr ms)
     (trace (snd (processBatches
        (sample_env (\<lambda>k rq. if k = 0 then Response 429 ''slow down''
                              else if k = 1 then Response 500 ''boom''
                              else Response 200 ''rows''))
        [[''SN-000''], [''SN-001''], [''SN-002'']] 0 [] [] fresh_world))) =
     [Inl [''SN-000''], Inr 2000, Inl [''SN-000''], Inr 1000, Inl [''SN-001''], Inr 1000,
      Inl [''SN-002'']] \<and>
   (\<exists>segs. trace (snd (processBatches
        (sample_env (\<lambda>k rq. if k = 0 then Response 429 ''slow down''
                              else if k = 1 then Response 500 ''boom''
                              else Response 200 ''rows''))
        [[''SN-000''], [''SN-001''], [''SN-002'']] 0 [] [] fresh_world)) =
        join [Sleep 1000] segs \<and> length segs = 3)"
proof -
  let ?e = "sample_env (\<lambda>k rq. if k = 0 then Response 429 ''slow down''
                              else if k = 1 then Response 500 ''boom''
                              else Response 200 ''rows'')"
  let ?bs = "[[''SN-000''], [''SN-001''], [''SN-002'']]"
  have fst_run: "fst (processBatches ?e ?bs 0 [] [] fresh_world) =
      Inr ([JStr ''r1'', JStr ''r2'', JStr ''r1'', JStr ''r2''],
           [\<lparr>batch = 1, serialNumbers = [''SN-000''], failure_error = Some ''boom'',
             failure_statusCode = 500\<rparr>])"
    by (simp add: eval_simps processBatches_eval delivered_def pause_after_def)
  have shape: "map (\<lambda>ev. case ev of Request rq \<Rightarrow> Inl (sn_list rq) | Sleep ms \<Rightarrow> Inr ms)
     (trace (snd (processBatches ?e ?bs 0 [] [] fresh_world))) =
     [Inl [''SN-000''], Inr 2000, Inl [''SN-000''], Inr 1000, Inl [''SN-001''], Inr 1000,
      Inl [''SN-002'']]"
    by (simp add: eval_simps processBatches_eval delivered_def pause_after_def)
  have "\<exists>segs. trace (snd (processBatches ?e ?bs 0 [] [] fresh_world)) =
        join [Sleep 1000] segs \<and> length segs = 3"
    using inter_batch_spacing [of ?e ?bs "[]" "[]" fresh_world] fst_run
    by (auto simp: fresh_world_def)
  with shape show ?thesis by blast
qed

lemma fetchDeviceData_not_success:
  assumes "\<forall>k rq body. net e k rq \<noteq> Response 200 body"
  shows "\<not> success (settled_value (fst (fetchDeviceData e s w)))"
  using assms
  by (auto simp: fetchDeviceData_def Date_now_def Let_def split_def parse_failure_def
      split: reply.splits option.splits sum.splits)

lemma fetchWithRetry_not_success:
  assumes "\<forall>k rq body. net e k rq \<noteq> Response 200 body"
  shows "\<not> success (fst (fetchWithRetry e s rc w))"
proof (induction "MAX_RETRIES - rc" arbitrary: rc w rule: less_induct)
  case less
  obtain p w1 where fd: "fetchDeviceData e s w = (p, w1)"
    by (cases "fetchDeviceData e s w")
  show ?case
  proof (cases "retried p rc")
    case True
    have "MAX_RETRIES - Suc rc < MAX_RETRIES - rc"
      using retried_bound [OF True] by simp
    then show ?thesis
      using less.hyps fetchWithRetry_again [OF fd True] by simp
  next
    case False
    then show ?thesis
      using fetchWithRetry_final [OF fd False] fetchDeviceData_not_success [OF assms, of s w] fd
      by simp
  qed
qed

lemma batch_results_not_success:
  assumes "\<forall>k rq body. net e k rq \<noteq> Response 200 body"
  shows "list_all (\<lambda>r. \<not> success r) (batch_results e batches i w)"
proof (induction "length batches - i" arbitrary: i w rule: less_induct)
  case less
  show ?case
  proof (cases "i < length batches")
    case True
    obtain r w1 where fr: "fetchWithRetry e (batches ! i) 0 w = (r, w1)"
      by (cases "fetchWithRetry e (batches ! i) 0 w")
    have "\<not> success r"
      using fetchWithRetry_not_success [OF assms, of "batches ! i" 0 w] fr by simp
    moreover have "length batches - Suc i < length batches - i" using True by simp
    ultimately show ?thesis
      using less.hyps [of "Suc i"] by (simp add: batch_results_step [OF True fr])
  next
    case False
    then show ?thesis by (simp add: batch_results_done)
  qed
qed

lemma all_failed:
  assumes "list_all (\<lambda>r. \<not> success r) rs"
  shows "\<not> list_ex malformed rs \<and> expected_data rs = [] \<and> filter (\<lambda>r. \<not> delivered r) rs = rs"
  using assms
  by (induction rs) (auto simp: malformed_def delivered_def expected_data_def)

text \<open>
  C10. Every report that aggregateDeviceData returns has \<open>success\<close> set to true. In
  particular, when no call is ever answered with status 200, so that every batch fails
  for good, a report is still returned, with \<open>success\<close> true, no data, zero fetched
  devices and 50 failed batches.
\<close>

theorem report_success_always:
  "(aggregateDeviceData e w = Some (Inr rep, w') \<longrightarrow> report_success rep) \<and>
   ((\<forall>k rq body. net e k rq \<noteq> Response 200 body) \<longrightarrow>
      (\<exists>rep w'. aggregateDeviceData e w = Some (Inr rep, w') \<and> report_success rep \<and>
         fetchedDevices rep = 0 \<and> report_data rep = [] \<and> failedBatches rep = 50))"
proof (intro conjI impI)
  assume "aggregateDeviceData e w = Some (Inr rep, w')"
  then show "report_success rep"
    by (auto simp: aggregateDeviceData_unfold Let_def split: sum.splits)
next
  assume none: "\<forall>k rq body. net e k rq \<noteq> Response 200 body"
  let ?bs = "pieces 10 generateSerialNumbers"
  let ?w1 = "w\<lparr>reads := Suc (reads w)\<rparr>"
  let ?rs = "batch_results e ?bs 0 ?w1"
  have fails: "\<not> list_ex malformed ?rs" "expected_data ?rs = []"
    "filter (\<lambda>r. \<not> delivered r) ?rs = ?rs"
    using all_failed [OF batch_results_not_success [OF none, of ?bs 0 ?w1]] by simp_all
  have len: "length ?rs = 50"
    using driver_batches by (simp add: length_batch_results)
  obtain v where run: "processBatches e ?bs 0 [] [] ?w1 =
      (Inr ([] @ expected_data ?rs, [] @ expected_errors 0 (drop 0 ?bs) ?rs), v)"
    using processBatches_complete [OF fails(1)] by blast
  have "length (expected_errors 0 ?bs ?rs) = 50"
    using length_expected_errors [of ?bs ?rs 0] fails(3) len driver_batches by simp
  then show "\<exists>rep w'. aggregateDeviceData e w = Some (Inr rep, w') \<and> report_success rep \<and>
         fetchedDevices rep = 0 \<and> report_data rep = [] \<and> failedBatches rep = 50"
    using run fails(2) by (simp add: aggregateDeviceData_unfold)
qed

theorem report_success_always_witness:
  "\<exists>rep w'. aggregateDeviceData (sample_env (\<lambda>k rq. Response 500 ''boom'')) fresh_world =
       Some (Inr rep, w') \<and>
     report_success rep \<and> fetchedDevices rep = 0 \<and> report_data rep = [] \<and>
     failedBatches rep = 50"
proof -
  have none: "\<forall>k rq body. net (sample_env (\<lambda>k rq. Response 500 ''boom'')) k rq \<noteq> Response 200 body"
    by (simp add: sample_env_def)
  show ?thesis
    using report_success_always [of "sample_env (\<lambda>k rq. Response 500 ''boom'')" fresh_world]
      none by blast
qed

section \<open>Two payloads the driver does not take as records\<close>

text \<open>
  A 200 answer whose body parses but has no \<^verbatim>\<open>data\<close> is a success for the Retry
  Policy and a failed batch for the driver, recorded with status 200 and no error text.
  A 200 answer whose \<^verbatim>\<open>data\<close> is a non-zero number passes the driver's test and then
  cannot be spread: the run ends there with a TypeError, after the one request.
\<close>

lemma payload_without_data_is_recorded:
  "fst (processBatches (sample_env (\<lambda>k rq. Response 200 ''empty'')) [[''SN-000'']] 0 [] []
          fresh_world) =
     Inr ([], [\<lparr>batch = 1, serialNumbers = [''SN-000''], failure_error = None,
                 failure_statusCode = 200\<rparr>])"
  by (simp add: eval_simps processBatches_eval delivered_def pause_after_def)

lemma unspreadable_payload_ends_run:
  "fst (processBatches (sample_env (\<lambda>k rq. Response 200 ''number''))
          [[''SN-000''], [''SN-001'']] 0 [] [] fresh_world) = Inl TypeError \<and>
   calls (snd (processBatches (sample_env (\<lambda>k rq. Response 200 ''number''))
          [[''SN-000''], [''SN-001'']] 0 [] [] fresh_world)) = 1"
  by (simp add: eval_simps processBatches_eval delivered_def pause_after_def)

end
